theory Spec2Isabelle
  imports Main "HOL-Library.Word"
begin

unbundle bit_operations_syntax

section \<open>Shared data: bytes, addresses, panics\<close>

text \<open>
  Go's \<open>net.IP\<close> is a byte slice (\<open>type IP []byte\<close>): 4 bytes for an IPv4 address,
  16 bytes for an IPv6 address, and the nil slice has length 0.  A run-time panic of the
  Go program (an index out of range) is a value of type \<open>panic\<close>.
\<close>

type_synonym byte = "8 word"
type_synonym IP = "byte list"

datatype panic = IndexOutOfRange

section \<open>PrefixCombiner: the loop of \<open>startPollServer\<close>\<close>

text \<open>
  The Go built-in \<open>copy(dst, src)\<close> overwrites the first \<open>min (len dst) (len src)\<close>
  elements of \<open>dst\<close>.
\<close>

definition copy_into :: "'a list \<Rightarrow> 'a list \<Rightarrow> 'a list" where
  "copy_into dst src = take (length dst) src @ drop (length src) dst"

text \<open>
  The inner loop \<open>for j := 0; j < 8; j++\<close>: it adds \<open>1 << (7 - j)\<close> to the byte
  \<open>mask\<close> whenever \<open>i*8 + j >= maskLen\<close>.
\<close>

function mask_loop :: "nat \<Rightarrow> int \<Rightarrow> nat \<Rightarrow> byte \<Rightarrow> byte" where
  "mask_loop i maskLen j msk =
     (if j < 8
      then mask_loop i maskLen (j + 1)
             (if int i * 8 + int j \<ge> maskLen then msk + push_bit (7 - j) 1 else msk)
      else msk)"
  by pat_completeness auto
termination
  by (relation "measure (\<lambda>(i, maskLen, j, msk). 8 - j)") auto

declare mask_loop.simps [simp del]

text \<open>The value of \<open>mask\<close> after the inner loop, which starts from \<open>j = 0\<close>, \<open>mask = 0\<close>.\<close>

definition maskByte :: "nat \<Rightarrow> int \<Rightarrow> byte" where
  "maskByte i maskLen = mask_loop i maskLen 0 0"

text \<open>
  The outer loop \<open>for i := 0; i < net.IPv6len; i++\<close>.  Reading \<open>constructedIp[i]\<close> or
  \<open>(*localIp)[i]\<close> beyond the slice panics.
\<close>

function combine_loop :: "IP \<Rightarrow> int \<Rightarrow> IP \<Rightarrow> nat \<Rightarrow> panic + IP" where
  "combine_loop localIp maskLen constructedIp i =
     (if i < 16
      then (if i < length constructedIp \<and> i < length localIp
            then (let b = constructedIp ! i;
                      lb = localIp ! i;
                      msk = mask_loop i maskLen 0 0
                  in combine_loop localIp maskLen (constructedIp[i := b + (lb AND msk)]) (i + 1))
            else Inl IndexOutOfRange)
      else Inr constructedIp)"
  by pat_completeness auto
termination
  by (relation "measure (\<lambda>(localIp, maskLen, constructedIp, i). 16 - i)") auto

declare combine_loop.simps [simp del]

text \<open>
  \<open>constructedIp := make(net.IP, net.IPv6len); copy(constructedIp, prefix.IP)\<close>, then the
  loop.  \<open>prefixIP\<close> is \<open>prefix.IP\<close>, \<open>maskLen\<close> the first result of
  \<open>prefix.Mask.Size()\<close>, \<open>localIp\<close> the configured host suffix.
\<close>

definition constructIp :: "IP \<Rightarrow> int \<Rightarrow> IP \<Rightarrow> panic + IP" where
  "constructIp prefixIP maskLen localIp =
     combine_loop localIp maskLen (copy_into (replicate 16 0) prefixIP) 0"

subsection \<open>Vocabulary of the specification\<close>

text \<open>Bit \<open>i\<close> of an address, counted from the most significant bit of byte 0.\<close>

definition ip_bit :: "IP \<Rightarrow> nat \<Rightarrow> bool" where
  "ip_bit ip i = bit (ip ! (i div 8)) (7 - i mod 8)"

text \<open>A well-formed delegated prefix: every bit at a position \<open>\<ge> L\<close> is zero.\<close>

definition well_formed_prefix :: "IP \<Rightarrow> int \<Rightarrow> bool" where
  "well_formed_prefix network L = list_all (\<lambda>i. L \<le> int i \<longrightarrow> \<not> ip_bit network i) [0..<128]"

text \<open>
  No addition of the loop carries: in no byte do the network byte and the masked suffix
  byte have a one at the same bit.
\<close>

definition no_carry :: "IP \<Rightarrow> int \<Rightarrow> IP \<Rightarrow> bool" where
  "no_carry network L suffix =
     list_all (\<lambda>k. (network ! k) AND ((suffix ! k) AND maskByte k L) = 0) [0..<16]"

text \<open>The combination the specification compares with: a bitwise OR in place of the addition.\<close>

definition constructIp_or :: "IP \<Rightarrow> int \<Rightarrow> IP \<Rightarrow> IP" where
  "constructIp_or network L suffix =
     map (\<lambda>k. (network ! k) OR ((suffix ! k) AND maskByte k L)) [0..<16]"

subsection \<open>The loops in closed form\<close>

lemma mask_loop_unroll:
  "mask_loop i L 0 0 =
     (if L \<le> int i * 8 then 128 else 0) + (if L \<le> int i * 8 + 1 then 64 else 0)
   + (if L \<le> int i * 8 + 2 then 32 else 0) + (if L \<le> int i * 8 + 3 then 16 else 0)
   + (if L \<le> int i * 8 + 4 then 8 else 0) + (if L \<le> int i * 8 + 5 then 4 else 0)
   + (if L \<le> int i * 8 + 6 then 2 else 0) + (if L \<le> int i * 8 + 7 then 1 else 0)"
  by (simp add: mask_loop.simps)

lemma maskByte_eq_mask: "maskByte i L = mask (nat (int i * 8 + 8 - L))"
proof -
  consider "L \<ge> int i * 8 + 8" | "L = int i * 8 + 7" | "L = int i * 8 + 6" | "L = int i * 8 + 5"
    | "L = int i * 8 + 4" | "L = int i * 8 + 3" | "L = int i * 8 + 2" | "L = int i * 8 + 1"
    | "L \<le> int i * 8"
    by linarith
  then show ?thesis
  proof cases
    case 9
    then have "nat (int i * 8 + 8 - L) = 8 + (nat (int i * 8 + 8 - L) - 8)" by simp
    then obtain m where m: "nat (int i * 8 + 8 - L) = 8 + m" ..
    have "(mask (8 + m) :: byte) = - 1"
      by (rule bit_eqI) (simp add: bit_simps)
    with 9 m show ?thesis
      by (simp add: maskByte_def mask_loop_unroll)
  qed (simp_all add: maskByte_def mask_loop_unroll mask_eq_exp_minus_1)
qed

lemma bit_maskByte: "j < 8 \<Longrightarrow> bit (maskByte k L) (7 - j) \<longleftrightarrow> L \<le> int k * 8 + int j"
  by (auto simp add: maskByte_eq_mask bit_simps)

lemma bit_maskByte': "n < 8 \<Longrightarrow> bit (maskByte k L) n \<longleftrightarrow> L \<le> int k * 8 + 7 - int n"
  by (auto simp add: maskByte_eq_mask bit_simps)

lemma combine_loop_eq:
  "length cip = 16 \<Longrightarrow> length localIp = 16 \<Longrightarrow> i \<le> 16 \<Longrightarrow>
   combine_loop localIp L cip i =
     Inr (take i cip @ map (\<lambda>k. cip ! k + (localIp ! k AND mask_loop k L 0 0)) [i..<16])"
proof (induction localIp L cip i rule: combine_loop.induct)
  case (1 localIp maskLen cip i)
  show ?case
  proof (cases "i < 16")
    case False
    with 1 show ?thesis by (simp add: combine_loop.simps)
  next
    case True
    let ?v = "cip ! i + (localIp ! i AND mask_loop i maskLen 0 0)"
    have ih: "combine_loop localIp maskLen (cip[i := ?v]) (i + 1) =
        Inr (take (i + 1) (cip[i := ?v]) @
             map (\<lambda>k. cip[i := ?v] ! k + (localIp ! k AND mask_loop k maskLen 0 0)) [i + 1..<16])"
      using 1 True by simp
    have a: "take (i + 1) (cip[i := ?v]) = take i cip @ [?v]"
      using 1 True by (simp add: take_Suc_conv_app_nth)
    have b: "map (\<lambda>k. cip[i := ?v] ! k + (localIp ! k AND mask_loop k maskLen 0 0)) [i + 1..<16]
           = map (\<lambda>k. cip ! k + (localIp ! k AND mask_loop k maskLen 0 0)) [i + 1..<16]"
      by simp
    have c: "[i..<16] = i # [i + 1..<16]"
      using True by (simp add: upt_conv_Cons)
    have "combine_loop localIp maskLen cip i = combine_loop localIp maskLen (cip[i := ?v]) (i + 1)"
      using True 1(2,3) by (subst combine_loop.simps) (simp add: Let_def)
    also have "\<dots> =
        Inr (take i cip @ map (\<lambda>k. cip ! k + (localIp ! k AND mask_loop k maskLen 0 0)) [i..<16])"
      unfolding ih a b c by simp
    finally show ?thesis .
  qed
qed

lemma constructIp_eq:
  assumes "length network = 16" "length suffix = 16"
  shows "constructIp network L suffix =
     Inr (map (\<lambda>k. network ! k + (suffix ! k AND maskByte k L)) [0..<16])"
  using assms by (simp add: constructIp_def copy_into_def combine_loop_eq maskByte_def)

lemma well_formed_prefix_iff:
  "well_formed_prefix network L \<longleftrightarrow> (\<forall>i<128. L \<le> int i \<longrightarrow> \<not> ip_bit network i)"
  by (auto simp add: well_formed_prefix_def list_all_iff)

lemma no_carry_iff:
  "no_carry network L suffix \<longleftrightarrow>
     (\<forall>k<16. (network ! k) AND ((suffix ! k) AND maskByte k L) = 0)"
  by (auto simp add: no_carry_def list_all_iff)

lemma well_formed_byte:
  assumes wf: "well_formed_prefix network L" and k: "k < 16"
  shows "(network ! k) AND maskByte k L = 0"
proof (rule bit_eqI)
  fix n
  assume "possible_bit TYPE(byte) n"
  then have n: "n < 8" by (simp add: possible_bit_def)
  have "\<not> (bit (network ! k) n \<and> bit (maskByte k L) n)"
  proof
    assume h: "bit (network ! k) n \<and> bit (maskByte k L) n"
    define m where "m = 7 - n"
    with n have m: "m < 8" "n = 7 - m" by simp_all
    let ?i = "k * 8 + m"
    from h m have "L \<le> int ?i" by (simp add: bit_maskByte)
    moreover from k m have "?i < 128" by simp
    ultimately have "\<not> ip_bit network ?i"
      using wf by (simp add: well_formed_prefix_iff)
    moreover from m have "?i div 8 = k" "7 - ?i mod 8 = n" by simp_all
    ultimately show False using h by (simp add: ip_bit_def)
  qed
  then show "bit ((network ! k) AND maskByte k L) n = bit (0 :: byte) n"
    by (simp add: bit_simps)
qed

lemma well_formed_no_carry:
  assumes "well_formed_prefix network L"
  shows "no_carry network L suffix"
proof -
  have "(network ! k) AND ((suffix ! k) AND maskByte k L) = 0" if "k < 16" for k
  proof -
    have "(network ! k) AND ((suffix ! k) AND maskByte k L)
        = (suffix ! k) AND ((network ! k) AND maskByte k L)"
      by (simp add: ac_simps)
    then show ?thesis using well_formed_byte [OF assms that] by simp
  qed
  then show ?thesis by (simp add: no_carry_iff)
qed

lemma add_eq_or_byte:
  assumes "well_formed_prefix network L" "k < 16"
  shows "network ! k + (suffix ! k AND maskByte k L) = (network ! k) OR (suffix ! k AND maskByte k L)"
proof -
  have "no_carry network L suffix" using assms(1) by (rule well_formed_no_carry)
  with assms(2) have "(network ! k) AND ((suffix ! k) AND maskByte k L) = 0"
    by (simp add: no_carry_iff)
  then show ?thesis by (rule disjunctive_add_eq_or)
qed

lemma well_formed_bits:
  assumes wf: "well_formed_prefix network L" and i: "i < 128"
  shows "bit (network ! (i div 8) + (suffix ! (i div 8) AND maskByte (i div 8) L)) (7 - i mod 8)
       = (if int i < L then ip_bit network i else ip_bit suffix i)"
proof -
  let ?k = "i div 8" and ?j = "i mod 8"
  from i have k: "?k < 16" by simp
  have j: "?j < 8" by simp
  have "int (i div 8 * 8 + i mod 8) = int i" by simp
  then have "int (i div 8) * 8 + int (i mod 8) = int i"
    by (simp only: of_nat_add of_nat_mult of_nat_numeral)
  then have m: "bit (maskByte ?k L) (7 - ?j) \<longleftrightarrow> L \<le> int i"
    using bit_maskByte [OF j, of ?k L] by simp
  have "bit (network ! ?k + (suffix ! ?k AND maskByte ?k L)) (7 - ?j)
      \<longleftrightarrow> ip_bit network i \<or> (ip_bit suffix i \<and> L \<le> int i)"
    unfolding add_eq_or_byte [OF wf k] by (simp add: bit_simps ip_bit_def m)
  moreover have "\<not> ip_bit network i" if "L \<le> int i"
    using wf i that by (simp add: well_formed_prefix_iff)
  ultimately show ?thesis by auto
qed

subsection \<open>The example of the specification\<close>

text \<open>\<open>2001:db8:1:2::\<close>, \<open>::1\<close> and \<open>2001:db8:1:2::1\<close> as 16 bytes.\<close>

definition example_network :: IP where
  "example_network = [0x20, 0x01, 0x0d, 0xb8, 0x00, 0x01, 0x00, 0x02, 0, 0, 0, 0, 0, 0, 0, 0]"

definition example_suffix :: IP where
  "example_suffix = [0, 0, 0, 0, 0, 0, 0, 0, 0, 0, 0, 0, 0, 0, 0, 0x01]"

definition example_result :: IP where
  "example_result = [0x20, 0x01, 0x0d, 0xb8, 0x00, 0x01, 0x00, 0x02, 0, 0, 0, 0, 0, 0, 0, 0x01]"

lemma maskByte_0: "maskByte k 0 = - 1"
proof -
  have "(mask (8 + k * 8) :: byte) = - 1"
    by (rule bit_eqI) (simp add: bit_simps)
  moreover have "nat (int k * 8 + 8 - 0) = 8 + k * 8" by simp
  ultimately show ?thesis by (simp only: maskByte_eq_mask)
qed

lemma maskByte_128: "k < 16 \<Longrightarrow> maskByte k 128 = 0"
  by (simp add: maskByte_eq_mask)

lemma map_nth_16: "length xs = 16 \<Longrightarrow> map (\<lambda>k. xs ! k) [0..<16] = xs"
  using map_nth [of xs] by simp

lemma well_formed_0_zero:
  assumes "length network = 16" "well_formed_prefix network 0"
  shows "network = replicate 16 0"
proof (rule nth_equalityI)
  show "length network = length (replicate 16 (0 :: byte))" using assms(1) by simp
next
  fix k assume "k < length network"
  then have k: "k < 16" using assms(1) by simp
  from well_formed_byte [OF assms(2) k] have "network ! k = 0" by (simp add: maskByte_0)
  with k show "network ! k = replicate 16 (0 :: byte) ! k" by simp
qed

subsection \<open>Claims about the PrefixCombiner\<close>

text \<open>
  C5 (amended).  For a 16-byte network address, any prefix length \<open>L\<close> and a 16-byte host
  suffix, the loop returns a 16-byte address whose byte \<open>k\<close> is
  \<open>network[k] + (suffix[k] & mask_k)\<close>, where bit \<open>j\<close> (0 = most significant) of
  \<open>mask_k\<close> is 1 exactly when \<open>k*8+j \<ge> L\<close>.  If moreover every bit of the network
  address at a position \<open>\<ge> L\<close> is zero, then bit \<open>i\<close> of the result is the network's
  bit for \<open>i < L\<close> and the host suffix's bit otherwise.
\<close>

theorem constructIp_bytewise:
  assumes "length network = 16" and "length suffix = 16"
  shows "\<exists>r. constructIp network L suffix = Inr r \<and> length r = 16
    \<and> (\<forall>k<16. r ! k = network ! k + (suffix ! k AND maskByte k L))
    \<and> (\<forall>k<16. \<forall>j<8. bit (maskByte k L) (7 - j) \<longleftrightarrow> L \<le> int (k * 8 + j))
    \<and> (well_formed_prefix network L \<longrightarrow>
         (\<forall>i<128. ip_bit r i = (if int i < L then ip_bit network i else ip_bit suffix i)))"
proof -
  let ?r = "map (\<lambda>k. network ! k + (suffix ! k AND maskByte k L)) [0..<16]"
  have r: "constructIp network L suffix = Inr ?r"
    using assms by (rule constructIp_eq)
  have bytes: "?r ! k = network ! k + (suffix ! k AND maskByte k L)" if "k < 16" for k
    using that by simp
  have masks: "bit (maskByte k L) (7 - j) \<longleftrightarrow> L \<le> int (k * 8 + j)" if "j < 8" for k j
    using bit_maskByte [OF that, of k L] by simp
  have bits: "ip_bit ?r i = (if int i < L then ip_bit network i else ip_bit suffix i)"
    if wf: "well_formed_prefix network L" and i: "i < 128" for i
  proof -
    from i have "i div 8 < 16" by simp
    then have "ip_bit ?r i
        = bit (network ! (i div 8) + (suffix ! (i div 8) AND maskByte (i div 8) L)) (7 - i mod 8)"
      unfolding ip_bit_def by (simp only: bytes)
    then show ?thesis using well_formed_bits [OF wf i] by simp
  qed
  show ?thesis
    using r bytes masks bits by (intro exI [of _ ?r]) simp
qed

theorem constructIp_bytewise_witness:
  "length example_network = 16 \<and> length example_suffix = 16
   \<and> well_formed_prefix example_network 64
   \<and> (\<exists>r. constructIp example_network 64 example_suffix = Inr r
        \<and> r ! 15 = example_network ! 15 + (example_suffix ! 15 AND maskByte 15 64)
        \<and> bit (maskByte 7 64) 0 = False \<and> bit (maskByte 8 64) 7 = True
        \<and> ip_bit r 3 = ip_bit example_network 3
        \<and> ip_bit r 127 = ip_bit example_suffix 127)"
proof -
  have l1: "length example_network = 16" by (simp add: example_network_def)
  have l2: "length example_suffix = 16" by (simp add: example_suffix_def)
  have wf: "well_formed_prefix example_network 64" by code_simp
  from constructIp_bytewise [OF l1 l2, of 64] obtain r where
    r: "constructIp example_network 64 example_suffix = Inr r"
    and bytes: "\<forall>k<16. r ! k = example_network ! k + (example_suffix ! k AND maskByte k 64)"
    and masks: "\<forall>k<16. \<forall>j<8. bit (maskByte k 64) (7 - j) \<longleftrightarrow> 64 \<le> int (k * 8 + j)"
    and bits: "well_formed_prefix example_network 64 \<longrightarrow>
         (\<forall>i<128. ip_bit r i = (if int i < 64 then ip_bit example_network i else ip_bit example_suffix i))"
    by blast
  from bytes have b15: "r ! 15 = example_network ! 15 + (example_suffix ! 15 AND maskByte 15 64)"
    by simp
  have m7: "bit (maskByte 7 64) 0 = False"
    using masks [rule_format, of 7 7] by simp
  have m8: "bit (maskByte 8 64) 7 = True"
    using masks [rule_format, of 8 0] by simp
  from bits wf have b: "\<forall>i<128. ip_bit r i = (if int i < 64 then ip_bit example_network i else ip_bit example_suffix i)"
    by simp
  from b have b3: "ip_bit r 3 = ip_bit example_network 3" by simp
  from b have b127: "ip_bit r 127 = ip_bit example_suffix 127" by simp
  show ?thesis using l1 l2 wf r b15 m7 m8 b3 b127 by blast
qed

theorem constructIp_bits_no_carry_counterexample:
  "\<not> (\<forall>network L suffix r.
        length network = 16 \<and> length suffix = 16 \<and> 0 \<le> L \<and> L \<le> 128
        \<and> constructIp network L suffix = Inr r \<and> no_carry network L suffix
        \<longrightarrow> (\<forall>i<128. ip_bit r i = (if int i < L then ip_bit network i else ip_bit suffix i)))"
proof
  assume h: "\<forall>network L suffix r.
        length network = 16 \<and> length suffix = 16 \<and> 0 \<le> L \<and> L \<le> 128
        \<and> constructIp network L suffix = Inr r \<and> no_carry network L suffix
        \<longrightarrow> (\<forall>i<128. ip_bit r i = (if int i < L then ip_bit network i else ip_bit suffix i))"
  let ?n = "replicate 15 0 @ [1 :: byte]" and ?s = "replicate 16 (0 :: byte)"
  have "length ?n = 16" "length ?s = 16" by simp_all
  moreover have "constructIp ?n 0 ?s = Inr ?n" by code_simp
  moreover have "no_carry ?n 0 ?s" by code_simp
  ultimately have "\<forall>i<128. ip_bit ?n i = (if int i < 0 then ip_bit ?n i else ip_bit ?s i)"
    using h [rule_format, of ?n ?s 0 ?n] by simp
  then have "ip_bit ?n 127 = ip_bit ?s 127" by simp
  moreover have "ip_bit ?n 127" by code_simp
  moreover have "\<not> ip_bit ?s 127" by code_simp
  ultimately show False by simp
qed

text \<open>
  C6 (amended).  For 16-byte network and suffix addresses: with \<open>L = 0\<close> the result is the
  byte-wise sum of network and suffix (modulo 256), which is the suffix unchanged when the
  network address is a well-formed \<open>/0\<close> prefix (all zero); with \<open>L = 128\<close> the result is
  the network address unchanged; and for \<open>L = 64\<close>, network \<open>2001:db8:1:2::\<close> and suffix
  \<open>::1\<close> the result is \<open>2001:db8:1:2::1\<close>.
\<close>

theorem constructIp_boundaries:
  assumes "length network = 16" and "length suffix = 16"
  shows "constructIp network 0 suffix = Inr (map2 (+) network suffix)
    \<and> (well_formed_prefix network 0 \<longrightarrow> constructIp network 0 suffix = Inr suffix)
    \<and> constructIp network 128 suffix = Inr network
    \<and> constructIp example_network 64 example_suffix = Inr example_result"
proof -
  have sum: "map (\<lambda>k. network ! k + suffix ! k) [0..<16] = map2 (+) network suffix"
    using assms by (intro nth_equalityI) simp_all
  have zero: "constructIp network 0 suffix = Inr (map2 (+) network suffix)"
    using sum by (simp add: constructIp_eq [OF assms] maskByte_0)
  have wf: "constructIp network 0 suffix = Inr suffix" if "well_formed_prefix network 0"
  proof -
    have "network = replicate 16 0"
      using assms(1) that by (rule well_formed_0_zero)
    then have "map (\<lambda>k. network ! k + suffix ! k) [0..<16] = map (\<lambda>k. suffix ! k) [0..<16]"
      by simp
    then show ?thesis
      using assms(2) by (simp add: constructIp_eq [OF assms] maskByte_0 map_nth_16)
  qed
  have "map (\<lambda>k. network ! k + (suffix ! k AND maskByte k 128)) [0..<16]
      = map (\<lambda>k. network ! k) [0..<16]"
    by (simp add: maskByte_128)
  then have full: "constructIp network 128 suffix = Inr network"
    using assms(1) by (simp add: constructIp_eq [OF assms] map_nth_16)
  have ex: "constructIp example_network 64 example_suffix = Inr example_result"
    by code_simp
  show ?thesis using zero wf full ex by blast
qed

theorem constructIp_boundaries_witness:
  "length (replicate 16 (0 :: byte)) = 16 \<and> length example_suffix = 16
   \<and> well_formed_prefix (replicate 16 0) 0
   \<and> constructIp (replicate 16 0) 0 example_suffix = Inr example_suffix
   \<and> constructIp (replicate 16 0) 128 example_suffix = Inr (replicate 16 0)"
proof -
  have l1: "length (replicate 16 (0 :: byte)) = 16" by simp
  have l2: "length example_suffix = 16" by (simp add: example_suffix_def)
  have wf: "well_formed_prefix (replicate 16 0) 0" by code_simp
  from constructIp_boundaries [OF l1 l2] wf l1 l2 show ?thesis by blast
qed

theorem constructIp_zero_prefix_counterexample:
  "\<not> (\<forall>network suffix. length network = 16 \<and> length suffix = 16
        \<longrightarrow> constructIp network 0 suffix = Inr suffix)"
proof
  assume h: "\<forall>network suffix. length network = 16 \<and> length suffix = 16
        \<longrightarrow> constructIp network 0 suffix = Inr suffix"
  have "length example_network = 16" "length example_suffix = 16"
    by (simp_all add: example_network_def example_suffix_def)
  with h have "constructIp example_network 0 example_suffix = Inr example_suffix" by blast
  moreover have "constructIp example_network 0 example_suffix = Inr example_result" by code_simp
  moreover have "example_result \<noteq> example_suffix" by code_simp
  ultimately show False by simp
qed

text \<open>
  C7.  For every prefix length and every well-formed delegated network address (all bits at
  positions \<open>\<ge> L\<close> zero), the addition \<open>network[k] + (suffix[k] & mask_k)\<close> equals the bitwise
  OR \<open>network[k] | (suffix[k] & mask_k)\<close> at every byte, so the loop computes the OR
  combination; without well-formedness the two can differ.
\<close>

theorem constructIp_add_or:
  "(\<forall>network L suffix.
      length network = 16 \<and> length suffix = 16 \<and> well_formed_prefix network L \<longrightarrow>
        (\<forall>k<16. network ! k + (suffix ! k AND maskByte k L)
                = (network ! k) OR (suffix ! k AND maskByte k L))
        \<and> constructIp network L suffix = Inr (constructIp_or network L suffix))
   \<and> (\<exists>network L suffix.
        length network = 16 \<and> length suffix = 16 \<and> \<not> well_formed_prefix network L
        \<and> (\<exists>k<16. network ! k + (suffix ! k AND maskByte k L)
                 \<noteq> (network ! k) OR (suffix ! k AND maskByte k L))
        \<and> constructIp network L suffix \<noteq> Inr (constructIp_or network L suffix))"
proof -
  have eq: "(\<forall>k<16. network ! k + (suffix ! k AND maskByte k L)
                = (network ! k) OR (suffix ! k AND maskByte k L))
        \<and> constructIp network L suffix = Inr (constructIp_or network L suffix)"
    if h: "length network = 16 \<and> length suffix = 16 \<and> well_formed_prefix network L"
    for network suffix :: IP and L :: int
  proof -
    from h have wf: "well_formed_prefix network L" by simp
    have bytes: "\<forall>k<16. network ! k + (suffix ! k AND maskByte k L)
                = (network ! k) OR (suffix ! k AND maskByte k L)"
      using add_eq_or_byte [OF wf] by simp
    then have "map (\<lambda>k. network ! k + (suffix ! k AND maskByte k L)) [0..<16]
          = constructIp_or network L suffix"
      by (simp add: constructIp_or_def)
    then have "constructIp network L suffix = Inr (constructIp_or network L suffix)"
      using h by (simp add: constructIp_eq)
    with bytes show ?thesis by simp
  qed
  let ?n = "replicate 15 0 @ [1 :: byte]"
  have "length ?n = 16" by simp
  moreover have "\<not> well_formed_prefix ?n 0" by code_simp
  moreover have "?n ! 15 + (?n ! 15 AND maskByte 15 0) \<noteq> (?n ! 15) OR (?n ! 15 AND maskByte 15 0)"
    by code_simp
  moreover have "constructIp ?n 0 ?n \<noteq> Inr (constructIp_or ?n 0 ?n)" by code_simp
  ultimately have differ: "\<exists>network L suffix.
        length network = 16 \<and> length suffix = 16 \<and> \<not> well_formed_prefix network L
        \<and> (\<exists>k<16. network ! k + (suffix ! k AND maskByte k L)
                 \<noteq> (network ! k) OR (suffix ! k AND maskByte k L))
        \<and> constructIp network L suffix \<noteq> Inr (constructIp_or network L suffix)"
    by (intro exI [of _ ?n] exI [of _ 0] exI [of _ 15] conjI) simp_all
  from eq differ show ?thesis by blast
qed

theorem constructIp_add_or_witness:
  "length example_network = 16 \<and> length example_suffix = 16
   \<and> well_formed_prefix example_network 64
   \<and> example_network ! 15 + (example_suffix ! 15 AND maskByte 15 64)
       = (example_network ! 15) OR (example_suffix ! 15 AND maskByte 15 64)
   \<and> constructIp example_network 64 example_suffix
       = Inr (constructIp_or example_network 64 example_suffix)"
proof -
  have l1: "length example_network = 16" by (simp add: example_network_def)
  have l2: "length example_suffix = 16" by (simp add: example_suffix_def)
  have wf: "well_formed_prefix example_network 64" by code_simp
  from constructIp_add_or have
    "(\<forall>k<16. example_network ! k + (example_suffix ! k AND maskByte k 64)
                = (example_network ! k) OR (example_suffix ! k AND maskByte k 64))
        \<and> constructIp example_network 64 example_suffix
            = Inr (constructIp_or example_network 64 example_suffix)"
    using l1 l2 wf by blast
  then show ?thesis using l1 l2 wf by simp
qed

section \<open>The methods of \<open>net.IP\<close> the worker calls\<close>

text \<open>
  \<open>To4\<close>, \<open>Equal\<close> and \<open>String\<close> belong to Go's standard library (package \<open>net\<close>), not
  to this repository; they are written out here as the library defines them, since the
  worker's control flow depends on them.  A nil result is \<open>None\<close>.
\<close>

definition v4InV6Prefix :: IP where
  "v4InV6Prefix = [0, 0, 0, 0, 0, 0, 0, 0, 0, 0, 0xff, 0xff]"

definition To4 :: "IP \<Rightarrow> IP option" where
  "To4 ip =
     (if length ip = 4 then Some ip
      else if length ip = 16 \<and> take 10 ip = replicate 10 0 \<and> ip ! 10 = 0xff \<and> ip ! 11 = 0xff
      then Some (drop 12 ip)
      else None)"

definition Equal :: "IP \<Rightarrow> IP \<Rightarrow> bool" where
  "Equal ip x =
     (if length ip = length x then ip = x
      else if length ip = 4 \<and> length x = 16 then take 12 x = v4InV6Prefix \<and> ip = drop 12 x
      else if length ip = 16 \<and> length x = 4 then take 12 ip = v4InV6Prefix \<and> drop 12 ip = x
      else False)"

definition digit_char :: "nat \<Rightarrow> char" where
  "digit_char d = ''0123456789abcdef'' ! d"

text \<open>The digits of \<open>n\<close> in base \<open>b\<close> (10 or 16 below), without leading zeros.\<close>

function utoa :: "nat \<Rightarrow> nat \<Rightarrow> string" where
  "utoa b n = (if b < 2 \<or> n < b then [digit_char n] else utoa b (n div b) @ [digit_char (n mod b)])"
  by pat_completeness auto
termination
  by (relation "measure (\<lambda>(b, n). n)") auto

declare utoa.simps [simp del]

text \<open>\<open>%d\<close> of \<open>fmt.Sprintf\<close> on an \<open>int\<close>.\<close>

definition itoa :: "int \<Rightarrow> string" where
  "itoa i = (if i < 0 then CHR ''-'' # utoa 10 (nat (- i)) else utoa 10 (nat i))"

fun join :: "string \<Rightarrow> string list \<Rightarrow> string" where
  "join sep [] = []"
| "join sep [x] = x"
| "join sep (x # y # ys) = x @ sep @ join sep (y # ys)"

definition hexString :: "IP \<Rightarrow> string" where
  "hexString ip = concat (map (\<lambda>b. [digit_char (unat b div 16), digit_char (unat b mod 16)]) ip)"

text \<open>The eight 16-bit groups of a 16-byte address.\<close>

definition v6u16 :: "IP \<Rightarrow> nat list" where
  "v6u16 ip = map (\<lambda>i. unat (ip ! (2 * i)) * 256 + unat (ip ! (2 * i + 1))) [0..<8]"

text \<open>
  The first longest run of at least two zero groups, as \<open>(zeroStart, zeroEnd)\<close>;
  \<open>(255, 255)\<close> when there is none.
\<close>

definition zero_run :: "nat list \<Rightarrow> nat \<times> nat" where
  "zero_run gs =
     foldl (\<lambda>(zeroStart, zeroEnd) i.
              let l = length (takeWhile (\<lambda>g. g = 0) (drop i gs))
              in if l \<ge> 2 \<and> l > zeroEnd - zeroStart then (i, i + l) else (zeroStart, zeroEnd))
           (255, 255) [0..<8]"

definition string6 :: "IP \<Rightarrow> string" where
  "string6 ip =
     (let gs = v6u16 ip; (zeroStart, zeroEnd) = zero_run gs
      in if zeroStart = 255 then join '':'' (map (utoa 16) gs)
         else join '':'' (map (utoa 16) (take zeroStart gs)) @ ''::''
              @ join '':'' (map (utoa 16) (drop zeroEnd gs)))"

definition String :: "IP \<Rightarrow> string" where
  "String ip =
     (if length ip = 0 then ''<nil>''
      else if length ip \<noteq> 4 \<and> length ip \<noteq> 16 then ''?'' @ hexString ip
      else case To4 ip of
             Some p4 \<Rightarrow> join ''.'' (map (\<lambda>b. utoa 10 (unat b)) p4)
           | None \<Rightarrow> string6 ip)"

section \<open>The Cloudflare updater: data\<close>

text \<open>A Go \<open>error\<close> value is represented by its message.\<close>

type_synonym error = string

record Action =
  DnsRecord :: string
  CfZoneId :: string
  IpVersion :: int

record CloudFlareConfigs =
  token :: string
  email :: string
  key :: string
  retryPolicy :: string

text \<open>
  \<open>lastIpv4\<close> and \<open>lastIpv6\<close> are pointers in Go (\<open>*net.IP\<close>, nil before the first
  update).  The worker stores the pointer it received; every caller in this repository
  passes the address of a fresh variable that is not written afterwards, so the slot is
  modelled by the value it points to.
\<close>

record UpdaterOptions =
  ipv4Zones :: "string list"
  ipv6Zones :: "string list"
  lastIpv4 :: "IP option"
  lastIpv6 :: "IP option"

subsection \<open>The provider interface (package \<open>cloudflare-go\<close>)\<close>

text \<open>
  The fields of \<open>cf.DNSRecord\<close> and of the parameter structs that the updater reads or
  writes.  \<open>Proxied\<close> is a \<open>*bool\<close>.
\<close>

record DNSRecord =
  ID :: string
  Content :: string
  TTL :: int
  Proxied :: "bool option"

record ListDNSRecordsParams =
  list_Type :: string
  list_Name :: string

record CreateDNSRecordParams =
  create_Type :: string
  create_Name :: string
  create_Content :: string
  create_Proxied :: "bool option"
  create_TTL :: int
  create_ZoneID :: string

record UpdateDNSRecordParams =
  update_ID :: string
  update_Content :: string
  update_TTL :: int
  update_Proxied :: "bool option"

text \<open>
  The provider is a black box: \<open>'p\<close> is whatever state stands behind the client
  \<open>*cf.API\<close>, and each method maps that state and its arguments to a new state and either
  an error or a result.  The first argument after the state of the three record methods
  is the resource container \<open>cf.ZoneIdentifier(action.CfZoneId)\<close>.
\<close>

record 'p cloudflare =
  ZoneIDByName :: "'p \<Rightarrow> string \<Rightarrow> 'p \<times> (error + string)"
  ListDNSRecords :: "'p \<Rightarrow> string \<Rightarrow> ListDNSRecordsParams \<Rightarrow> 'p \<times> (error + DNSRecord list)"
  CreateDNSRecord :: "'p \<Rightarrow> string \<Rightarrow> CreateDNSRecordParams \<Rightarrow> 'p \<times> (error + DNSRecord)"
  UpdateDNSRecord :: "'p \<Rightarrow> string \<Rightarrow> UpdateDNSRecordParams \<Rightarrow> 'p \<times> (error + DNSRecord)"

subsection \<open>Observable effects\<close>

text \<open>
  What the updater does to the outside world is kept as a list of events, oldest first: the
  provider calls it issues, each with the error it got back (if any), and the log lines it
  writes.  A log line has its level, the \<open>domain\<close> attribute of the sub-logger (\<open>None\<close>
  for the updater's own logger), the message and the attributes of the call.
\<close>

datatype api_call =
    ZoneIDByNameCall string
  | ListDNSRecordsCall string ListDNSRecordsParams
  | CreateDNSRecordCall string CreateDNSRecordParams
  | UpdateDNSRecordCall string UpdateDNSRecordParams

datatype level = LevelInfo | LevelError

datatype attr = AttrIp IP | AttrRecordId string | AttrError error

datatype event =
    Log level "string option" string "attr list"
  | Call api_call "error option"

record 'p CloudflareUpdater =
  options :: UpdaterOptions
  configs :: CloudFlareConfigs
  actions :: "Action list"
  isInit :: bool
  api :: 'p
  events :: "event list"

text \<open>\<open>os.Exit(1)\<close> ends the process: nothing runs after \<open>Exited\<close>.\<close>

datatype 'a outcome = Running 'a | Exited 'a

fun state_of :: "'a outcome \<Rightarrow> 'a" where
  "state_of (Running u) = u"
| "state_of (Exited u) = u"

definition emit :: "event \<Rightarrow> 'p CloudflareUpdater \<Rightarrow> 'p CloudflareUpdater" where
  "emit ev u = u\<lparr>events := events u @ [ev]\<rparr>"

definition err_of :: "error + 'a \<Rightarrow> error option" where
  "err_of r = (case r of Inl err \<Rightarrow> Some err | Inr _ \<Rightarrow> None)"

text \<open>A provider call: the provider state moves on and the call is recorded.\<close>

definition called ::
  "api_call \<Rightarrow> 'p \<times> (error + 'a) \<Rightarrow> 'p CloudflareUpdater \<Rightarrow> (error + 'a) \<times> 'p CloudflareUpdater" where
  "called c pr u = (snd pr, u\<lparr>api := fst pr, events := events u @ [Call c (err_of (snd pr))]\<rparr>)"

section \<open>The worker: \<open>spawnWorker\<close>\<close>

text \<open>The \<open>domain\<close> attribute: \<open>fmt.Sprintf("%s/IPv%d", action.DnsRecord, action.IpVersion)\<close>.\<close>

definition domain :: "Action \<Rightarrow> string" where
  "domain action = DnsRecord action @ ''/IPv'' @ itoa (IpVersion action)"

text \<open>The loop \<open>for _, record := range records\<close>.\<close>

fun update_records ::
  "'p cloudflare \<Rightarrow> IP \<Rightarrow> Action \<Rightarrow> DNSRecord list \<Rightarrow> 'p CloudflareUpdater
     \<Rightarrow> 'p CloudflareUpdater outcome" where
  "update_records cf ip action [] u = Running u"
| "update_records cf ip action (rcd # records) u =
     (let u1 = emit (Log LevelInfo (Some (domain action)) ''Updating DNS record''
                       [AttrRecordId (ID rcd)]) u
      in if Content rcd = String ip then update_records cf ip action records u1
         else (let params = \<lparr>update_ID = ID rcd, update_Content = String ip,
                              update_TTL = TTL rcd, update_Proxied = Proxied rcd\<rparr>
               in case called (UpdateDNSRecordCall (CfZoneId action) params)
                         (UpdateDNSRecord cf (api u1) (CfZoneId action) params) u1 of
                    (Inl err, u2) \<Rightarrow>
                      Exited (emit (Log LevelError (Some (domain action))
                                      ''Action failed, could not update DNS record''
                                      [AttrError err]) u2)
                  | (Inr _, u2) \<Rightarrow> update_records cf ip action records u2))"

text \<open>The body of the action loop after the two family checks.\<close>

definition reconcile ::
  "'p cloudflare \<Rightarrow> IP \<Rightarrow> Action \<Rightarrow> 'p CloudflareUpdater \<Rightarrow> 'p CloudflareUpdater outcome" where
  "reconcile cf ip action u =
     (let alog = Some (domain action);
          recordType = (if To4 ip = None then ''AAAA'' else ''A'');
          rc = CfZoneId action;
          lparams = \<lparr>list_Type = recordType, list_Name = DnsRecord action\<rparr>
      in case called (ListDNSRecordsCall rc lparams) (ListDNSRecords cf (api u) rc lparams) u of
           (Inl err, u1) \<Rightarrow>
             Exited (emit (Log LevelError alog ''Action failed, could not research DNS records''
                             [AttrError err]) u1)
         | (Inr records, u1) \<Rightarrow>
             if length records = 0
             then (let u2 = emit (Log LevelInfo alog ''Creating DNS record'' []) u1;
                       cparams = \<lparr>create_Type = recordType, create_Name = DnsRecord action,
                                  create_Content = String ip, create_Proxied = Some False,
                                  create_TTL = 120, create_ZoneID = CfZoneId action\<rparr>
                   in case called (CreateDNSRecordCall rc cparams)
                             (CreateDNSRecord cf (api u2) rc cparams) u2 of
                        (Inl err, u3) \<Rightarrow>
                          Exited (emit (Log LevelError alog
                                          ''Action failed, could not create DNS record''
                                          [AttrError err]) u3)
                      | (Inr _, u3) \<Rightarrow> update_records cf ip action records u3)
             else update_records cf ip action records u1)"

text \<open>The loop \<open>for _, action := range u.actions\<close>.\<close>

fun action_loop ::
  "'p cloudflare \<Rightarrow> IP \<Rightarrow> Action list \<Rightarrow> 'p CloudflareUpdater \<Rightarrow> 'p CloudflareUpdater outcome" where
  "action_loop cf ip [] u = Running u"
| "action_loop cf ip (action # rest) u =
     (if To4 ip = None \<and> IpVersion action \<noteq> 6 then action_loop cf ip rest u
      else if To4 ip \<noteq> None \<and> IpVersion action = 6 then action_loop cf ip rest u
      else case reconcile cf ip action u of
             Exited u' \<Rightarrow> Exited u'
           | Running u' \<Rightarrow> action_loop cf ip rest u')"

text \<open>The dedup check at the head of \<open>case ip := <-u.In\<close>.\<close>

definition is_duplicate :: "IP \<Rightarrow> 'p CloudflareUpdater \<Rightarrow> bool" where
  "is_duplicate ip u =
     (if To4 ip = None
      then (case lastIpv6 (options u) of None \<Rightarrow> False | Some l \<Rightarrow> Equal l ip)
      else (case lastIpv4 (options u) of None \<Rightarrow> False | Some l \<Rightarrow> Equal l ip))"

text \<open>One iteration of the worker's loop, for the address \<open>ip\<close> received from \<open>u.In\<close>.\<close>

definition handle ::
  "'p cloudflare \<Rightarrow> IP \<Rightarrow> 'p CloudflareUpdater \<Rightarrow> 'p CloudflareUpdater outcome" where
  "handle cf ip u =
     (if is_duplicate ip u then Running u
      else (let u1 = emit (Log LevelInfo None ''Received update request'' [AttrIp ip]) u
            in case action_loop cf ip (actions u1) u1 of
                 Exited u' \<Rightarrow> Exited u'
               | Running u' \<Rightarrow>
                   Running (if To4 ip = None
                            then u'\<lparr>options := (options u')\<lparr>lastIpv6 := Some ip\<rparr>\<rparr>
                            else u'\<lparr>options := (options u')\<lparr>lastIpv4 := Some ip\<rparr>\<rparr>)))"

text \<open>
  The worker on the addresses the channel delivers, in order.  \<open>Running\<close> at the end of the
  list means the worker waits for the next address.
\<close>

fun spawnWorker ::
  "'p cloudflare \<Rightarrow> IP list \<Rightarrow> 'p CloudflareUpdater \<Rightarrow> 'p CloudflareUpdater outcome" where
  "spawnWorker cf [] u = Running u"
| "spawnWorker cf (ip # ips) u =
     (case handle cf ip u of
        Exited u' \<Rightarrow> Exited u'
      | Running u' \<Rightarrow> spawnWorker cf ips u')"

definition StartWorker ::
  "'p cloudflare \<Rightarrow> IP list \<Rightarrow> 'p CloudflareUpdater \<Rightarrow> 'p CloudflareUpdater outcome" where
  "StartWorker cf ips u = (if \<not> isInit u then Running u else spawnWorker cf ips u)"

subsection \<open>A provider for the examples\<close>

text \<open>
  A small provider that holds the records of one name: listing returns them, creating adds
  a record with identifier \<open>new\<close>, updating rewrites content, TTL and proxied flag of the
  record with the given identifier.
\<close>

definition memory_provider :: "DNSRecord list cloudflare" where
  "memory_provider =
     \<lparr>ZoneIDByName = (\<lambda>p zone. (p, Inr (''zone-of-'' @ zone))),
      ListDNSRecords = (\<lambda>p rc params. (p, Inr p)),
      CreateDNSRecord = (\<lambda>p rc params.
         (let r = \<lparr>ID = ''new'', Content = create_Content params, TTL = create_TTL params,
                   Proxied = create_Proxied params\<rparr>
          in (p @ [r], Inr r))),
      UpdateDNSRecord = (\<lambda>p rc params.
         (let upd = (\<lambda>r. if ID r = update_ID params
                          then r\<lparr>Content := update_Content params, TTL := update_TTL params,
                                 Proxied := update_Proxied params\<rparr>
                          else r)
          in (map upd p, Inr \<lparr>ID = update_ID params, Content = update_Content params,
                              TTL = update_TTL params, Proxied = update_Proxied params\<rparr>)))\<rparr>"

text \<open>The same provider with every update call failing.\<close>

definition failing_update_provider :: "DNSRecord list cloudflare" where
  "failing_update_provider =
     memory_provider\<lparr>UpdateDNSRecord := (\<lambda>p rc params. (p, Inl ''context deadline exceeded''))\<rparr>"

definition example_updater :: "DNSRecord list \<Rightarrow> DNSRecord list CloudflareUpdater" where
  "example_updater rs =
     \<lparr>options = \<lparr>ipv4Zones = [''home.example.com''], ipv6Zones = [''home.example.com''],
                  lastIpv4 = None, lastIpv6 = None\<rparr>,
      configs = \<lparr>token = ''t'', email = '''', key = '''', retryPolicy = ''''\<rparr>,
      actions = [\<lparr>DnsRecord = ''home.example.com'', CfZoneId = ''z1'', IpVersion = 4\<rparr>,
                 \<lparr>DnsRecord = ''home.example.com'', CfZoneId = ''z1'', IpVersion = 6\<rparr>],
      isInit = True, api = rs, events = []\<rparr>"

section \<open>Reading the event list\<close>

text \<open>The events that \<open>u'\<close> holds beyond those of \<open>u\<close>.\<close>

definition new_events :: "'p CloudflareUpdater \<Rightarrow> 'p CloudflareUpdater \<Rightarrow> event list" where
  "new_events u u' = drop (length (events u)) (events u')"

fun provider_calls :: "event list \<Rightarrow> api_call list" where
  "provider_calls [] = []"
| "provider_calls (Call c r # evs) = c # provider_calls evs"
| "provider_calls (Log l d m as # evs) = provider_calls evs"

fun create_calls :: "event list \<Rightarrow> (string \<times> CreateDNSRecordParams) list" where
  "create_calls [] = []"
| "create_calls (Call (CreateDNSRecordCall rc params) r # evs) = (rc, params) # create_calls evs"
| "create_calls (ev # evs) = create_calls evs"

fun update_calls :: "event list \<Rightarrow> (string \<times> UpdateDNSRecordParams) list" where
  "update_calls [] = []"
| "update_calls (Call (UpdateDNSRecordCall rc params) r # evs) = (rc, params) # update_calls evs"
| "update_calls (ev # evs) = update_calls evs"

fun zone_calls :: "event list \<Rightarrow> string list" where
  "zone_calls [] = []"
| "zone_calls (Call (ZoneIDByNameCall zone) r # evs) = zone # zone_calls evs"
| "zone_calls (ev # evs) = zone_calls evs"

fun is_failed_call :: "event \<Rightarrow> bool" where
  "is_failed_call (Call c (Some err)) = True"
| "is_failed_call ev = False"

text \<open>The message the worker logs when a provider call of the given kind fails.\<close>

fun failure_message :: "api_call \<Rightarrow> string" where
  "failure_message (ListDNSRecordsCall rc params) = ''Action failed, could not research DNS records''"
| "failure_message (CreateDNSRecordCall rc params) = ''Action failed, could not create DNS record''"
| "failure_message (UpdateDNSRecordCall rc params) = ''Action failed, could not update DNS record''"
| "failure_message (ZoneIDByNameCall zone) = []"

lemma provider_calls_append: "provider_calls (xs @ ys) = provider_calls xs @ provider_calls ys"
  by (induction xs rule: provider_calls.induct) simp_all

lemma create_calls_append: "create_calls (xs @ ys) = create_calls xs @ create_calls ys"
  by (induction xs rule: create_calls.induct) simp_all

lemma update_calls_append: "update_calls (xs @ ys) = update_calls xs @ update_calls ys"
  by (induction xs rule: update_calls.induct) simp_all

lemma zone_calls_append: "zone_calls (xs @ ys) = zone_calls xs @ zone_calls ys"
  by (induction xs rule: zone_calls.induct) simp_all

lemma new_events_append: "events u' = events u @ new \<Longrightarrow> new_events u u' = new"
  by (simp add: new_events_def)

lemma new_events_self: "new_events u u = []"
  by (simp add: new_events_def)

subsection \<open>What a step leaves alone, and how the event list grows\<close>

text \<open>
  \<open>extends u u' new\<close>: \<open>u'\<close> is \<open>u\<close> with a new provider state and the events \<open>new\<close>
  appended; options, configuration, actions and the init flag are those of \<open>u\<close>.
\<close>

definition extends ::
  "'p CloudflareUpdater \<Rightarrow> 'p CloudflareUpdater \<Rightarrow> event list \<Rightarrow> bool" where
  "extends u u' new \<longleftrightarrow>
     events u' = events u @ new \<and> options u' = options u \<and> configs u' = configs u
     \<and> actions u' = actions u \<and> isInit u' = isInit u"

lemma extends_refl: "extends u u []"
  by (simp add: extends_def)

lemma extends_trans: "extends u u1 xs \<Longrightarrow> extends u1 u2 ys \<Longrightarrow> extends u u2 (xs @ ys)"
  by (simp add: extends_def)

lemma extends_emit: "extends u (emit ev u) [ev]"
  by (simp add: extends_def emit_def)

lemma extends_called:
  "called c pr u = (r, u') \<Longrightarrow> extends u u' [Call c (err_of r)]"
  by (auto simp add: extends_def called_def)

lemma called_result: "called c pr u = (r, u') \<Longrightarrow> r = snd pr \<and> api u' = fst pr"
  by (auto simp add: called_def)

lemma extends_new_events: "extends u u' new \<Longrightarrow> new_events u u' = new"
  by (simp add: extends_def new_events_def)

text \<open>
  \<open>good_run A u out\<close>: the run from \<open>u\<close> to \<open>out\<close> either goes on with no failed provider
  call among its events, or has exited right after logging, with the \<open>domain\<close> of an action
  of \<open>A\<close>, the failure of the one provider call that failed.
\<close>

definition good_run ::
  "Action set \<Rightarrow> 'p CloudflareUpdater \<Rightarrow> 'p CloudflareUpdater outcome \<Rightarrow> bool" where
  "good_run A u out =
     (case out of
        Running u' \<Rightarrow> \<exists>new. extends u u' new \<and> \<not> list_ex is_failed_call new
      | Exited u' \<Rightarrow>
          \<exists>pre c err a. a \<in> A \<and> \<not> list_ex is_failed_call pre
            \<and> extends u u' (pre @ [Call c (Some err),
                 Log LevelError (Some (domain a)) (failure_message c) [AttrError err]]))"

lemma good_run_ExitedI:
  "a \<in> A \<Longrightarrow> \<not> list_ex is_failed_call pre \<Longrightarrow> extends u u' new \<Longrightarrow>
   new = pre @ [Call c (Some err),
                Log LevelError (Some (domain a)) (failure_message c) [AttrError err]] \<Longrightarrow>
   good_run A u (Exited u')"
  unfolding good_run_def by simp blast

lemma good_run_RunningI:
  "extends u u' new \<Longrightarrow> \<not> list_ex is_failed_call new \<Longrightarrow> good_run A u (Running u')"
  unfolding good_run_def by simp blast

lemma good_run_Running: "good_run A u (Running u)"
  unfolding good_run_def using extends_refl [of u] by auto

lemma good_run_prepend:
  assumes "extends u u1 xs" "\<not> list_ex is_failed_call xs" "good_run A u1 out"
  shows "good_run A u out"
proof (cases out)
  case (Running u')
  with assms(3) obtain new where "extends u1 u' new" "\<not> list_ex is_failed_call new"
    by (auto simp add: good_run_def)
  with assms(1,2) have "extends u u' (xs @ new)" "\<not> list_ex is_failed_call (xs @ new)"
    by (auto intro: extends_trans)
  with Running show ?thesis by (auto intro: good_run_RunningI)
next
  case (Exited u')
  with assms(3) obtain pre c err a where a: "a \<in> A" "\<not> list_ex is_failed_call pre"
    and e: "extends u1 u' (pre @ [Call c (Some err),
                 Log LevelError (Some (domain a)) (failure_message c) [AttrError err]])"
    by (auto simp add: good_run_def)
  from extends_trans [OF assms(1) e] have "extends u u' ((xs @ pre) @ [Call c (Some err),
                 Log LevelError (Some (domain a)) (failure_message c) [AttrError err]])"
    by simp
  moreover from a assms(2) have "\<not> list_ex is_failed_call (xs @ pre)" by simp
  ultimately have "good_run A u (Exited u')"
    using a(1) by (intro good_run_ExitedI [of a A "xs @ pre" u u' _ c err]) simp_all
  with Exited show ?thesis by simp
qed

lemma good_run_mono: "A \<subseteq> B \<Longrightarrow> good_run A u out \<Longrightarrow> good_run B u out"
  unfolding good_run_def by (cases out) (simp, simp, blast)

lemma good_run_fail:
  assumes "called c pr u = (Inl err, u1)"
  shows "good_run {a} u
           (Exited (emit (Log LevelError (Some (domain a)) (failure_message c) [AttrError err]) u1))"
proof -
  from extends_called [OF assms] have "extends u u1 [Call c (Some err)]"
    by (simp add: err_of_def)
  from extends_trans [OF this extends_emit]
  have "extends u (emit (Log LevelError (Some (domain a)) (failure_message c) [AttrError err]) u1)
          ([] @ [Call c (Some err),
                 Log LevelError (Some (domain a)) (failure_message c) [AttrError err]])"
    by simp
  then show ?thesis by (intro good_run_ExitedI [of a _ "[]" u _ _ c err]) simp_all
qed

lemma good_run_extends: "good_run A u out \<Longrightarrow> \<exists>new. extends u (state_of out) new"
  unfolding good_run_def by (cases out) auto

subsection \<open>The update loop\<close>

text \<open>The update calls the specification expects for the records of the list phase.\<close>

definition expected_updates ::
  "Action \<Rightarrow> IP \<Rightarrow> DNSRecord list \<Rightarrow> (string \<times> UpdateDNSRecordParams) list" where
  "expected_updates action ip records =
     map (\<lambda>r. (CfZoneId action,
                \<lparr>update_ID = ID r, update_Content = String ip,
                 update_TTL = TTL r, update_Proxied = Proxied r\<rparr>))
         (filter (\<lambda>r. Content r \<noteq> String ip) records)"

lemma update_records_good: "good_run {a} u (update_records cf ip a rs u)"
proof (induction rs arbitrary: u)
  case Nil
  show ?case by (simp add: good_run_Running)
next
  case (Cons r rs)
  let ?ev = "Log LevelInfo (Some (domain a)) ''Updating DNS record'' [AttrRecordId (ID r)]"
  let ?u1 = "emit ?ev u"
  let ?ps = "\<lparr>update_ID = ID r, update_Content = String ip,
              update_TTL = TTL r, update_Proxied = Proxied r\<rparr>"
  let ?c = "UpdateDNSRecordCall (CfZoneId a) ?ps"
  have e1: "extends u ?u1 [?ev]" by (rule extends_emit)
  have c1: "\<not> list_ex is_failed_call [?ev]" by simp
  show ?case
  proof (cases "Content r = String ip")
    case True
    then have "update_records cf ip a (r # rs) u = update_records cf ip a rs ?u1"
      by (simp add: Let_def)
    with good_run_prepend [OF e1 c1 Cons.IH] show ?thesis by simp
  next
    case False
    obtain res u2 where call: "called ?c (UpdateDNSRecord cf (api ?u1) (CfZoneId a) ?ps) ?u1 = (res, u2)"
      by (cases "called ?c (UpdateDNSRecord cf (api ?u1) (CfZoneId a) ?ps) ?u1")
    show ?thesis
    proof (cases res)
      case (Inl err)
      with call False have "update_records cf ip a (r # rs) u =
          Exited (emit (Log LevelError (Some (domain a)) (failure_message ?c) [AttrError err]) u2)"
        by (simp add: Let_def)
      moreover from call Inl have "good_run {a} ?u1
          (Exited (emit (Log LevelError (Some (domain a)) (failure_message ?c) [AttrError err]) u2))"
        by (intro good_run_fail) simp
      ultimately show ?thesis using good_run_prepend [OF e1 c1] by simp
    next
      case (Inr rec')
      with call False have eq: "update_records cf ip a (r # rs) u = update_records cf ip a rs u2"
        by (simp add: Let_def)
      from extends_called [OF call] Inr have "extends ?u1 u2 [Call ?c None]"
        by (simp add: err_of_def)
      then have "good_run {a} ?u1 (update_records cf ip a rs u2)"
        by (rule good_run_prepend) (simp_all add: Cons.IH)
      with eq show ?thesis using good_run_prepend [OF e1 c1] by simp
    qed
  qed
qed

lemma update_records_calls:
  "\<exists>new n. extends u (state_of (update_records cf ip a rs u)) new
     \<and> create_calls new = [] \<and> update_calls new = take n (expected_updates a ip rs)
     \<and> (\<forall>u'. update_records cf ip a rs u = Running u' \<longrightarrow>
            update_calls new = expected_updates a ip rs)"
proof (induction rs arbitrary: u)
  case Nil
  show ?case using extends_refl [of u] by (auto simp add: expected_updates_def)
next
  case (Cons r rs)
  let ?ev = "Log LevelInfo (Some (domain a)) ''Updating DNS record'' [AttrRecordId (ID r)]"
  let ?u1 = "emit ?ev u"
  let ?ps = "\<lparr>update_ID = ID r, update_Content = String ip,
              update_TTL = TTL r, update_Proxied = Proxied r\<rparr>"
  let ?c = "UpdateDNSRecordCall (CfZoneId a) ?ps"
  have e1: "extends u ?u1 [?ev]" by (rule extends_emit)
  show ?case
  proof (cases "Content r = String ip")
    case True
    then have eq: "update_records cf ip a (r # rs) u = update_records cf ip a rs ?u1"
      by (simp add: Let_def)
    from Cons.IH [of ?u1] obtain new n where
      n: "extends ?u1 (state_of (update_records cf ip a rs ?u1)) new"
         "create_calls new = []" "update_calls new = take n (expected_updates a ip rs)"
         "\<forall>u'. update_records cf ip a rs ?u1 = Running u' \<longrightarrow>
            update_calls new = expected_updates a ip rs"
      by blast
    have x: "expected_updates a ip (r # rs) = expected_updates a ip rs"
      using True by (simp add: expected_updates_def)
    from extends_trans [OF e1 n(1)] n(2,3,4) show ?thesis
      unfolding eq x by (intro exI [of _ "[?ev] @ new"] exI [of _ n]) simp
  next
    case False
    have x: "expected_updates a ip (r # rs) = (CfZoneId a, ?ps) # expected_updates a ip rs"
      using False by (simp add: expected_updates_def)
    obtain res u2 where call: "called ?c (UpdateDNSRecord cf (api ?u1) (CfZoneId a) ?ps) ?u1 = (res, u2)"
      by (cases "called ?c (UpdateDNSRecord cf (api ?u1) (CfZoneId a) ?ps) ?u1")
    have e2: "extends ?u1 u2 [Call ?c (err_of res)]" by (rule extends_called [OF call])
    show ?thesis
    proof (cases res)
      case (Inl err)
      let ?u3 = "emit (Log LevelError (Some (domain a))
                   ''Action failed, could not update DNS record'' [AttrError err]) u2"
      from call Inl False have eq: "update_records cf ip a (r # rs) u = Exited ?u3"
        by (simp add: Let_def)
      from extends_trans [OF extends_trans [OF e1 e2] extends_emit]
      have "extends u ?u3 ([?ev, Call ?c (err_of res),
              Log LevelError (Some (domain a))
                ''Action failed, could not update DNS record'' [AttrError err]])"
        by simp
      then show ?thesis unfolding eq x
        by (intro exI [of _ "[?ev, Call ?c (err_of res),
              Log LevelError (Some (domain a))
                ''Action failed, could not update DNS record'' [AttrError err]]"]
              exI [of _ 1]) simp
    next
      case (Inr rec')
      with call False have eq: "update_records cf ip a (r # rs) u = update_records cf ip a rs u2"
        by (simp add: Let_def)
      from Cons.IH [of u2] obtain new n where
        n: "extends u2 (state_of (update_records cf ip a rs u2)) new"
           "create_calls new = []" "update_calls new = take n (expected_updates a ip rs)"
           "\<forall>u'. update_records cf ip a rs u2 = Running u' \<longrightarrow>
              update_calls new = expected_updates a ip rs"
        by blast
      from extends_trans [OF extends_trans [OF e1 e2] n(1)] n(2,3,4) show ?thesis
        unfolding eq x
        by (intro exI [of _ "([?ev] @ [Call ?c (err_of res)]) @ new"] exI [of _ "Suc n"]) simp
    qed
  qed
qed

subsection \<open>Reconciling one action\<close>

text \<open>The record type and the parameters of the list and create calls for an action.\<close>

definition record_type :: "IP \<Rightarrow> string" where
  "record_type ip = (if To4 ip = None then ''AAAA'' else ''A'')"

definition list_params :: "IP \<Rightarrow> Action \<Rightarrow> ListDNSRecordsParams" where
  "list_params ip action = \<lparr>list_Type = record_type ip, list_Name = DnsRecord action\<rparr>"

definition create_params :: "IP \<Rightarrow> Action \<Rightarrow> CreateDNSRecordParams" where
  "create_params ip action =
     \<lparr>create_Type = record_type ip, create_Name = DnsRecord action,
      create_Content = String ip, create_Proxied = Some False,
      create_TTL = 120, create_ZoneID = CfZoneId action\<rparr>"

lemma reconcile_unfold:
  "reconcile cf ip a u =
     (case called (ListDNSRecordsCall (CfZoneId a) (list_params ip a))
             (ListDNSRecords cf (api u) (CfZoneId a) (list_params ip a)) u of
        (Inl err, u1) \<Rightarrow>
          Exited (emit (Log LevelError (Some (domain a))
                          (failure_message (ListDNSRecordsCall (CfZoneId a) (list_params ip a)))
                          [AttrError err]) u1)
      | (Inr records, u1) \<Rightarrow>
          if records = []
          then (case called (CreateDNSRecordCall (CfZoneId a) (create_params ip a))
                       (CreateDNSRecord cf
                          (api (emit (Log LevelInfo (Some (domain a)) ''Creating DNS record'' []) u1))
                          (CfZoneId a) (create_params ip a))
                       (emit (Log LevelInfo (Some (domain a)) ''Creating DNS record'' []) u1) of
                  (Inl err, u3) \<Rightarrow>
                    Exited (emit (Log LevelError (Some (domain a))
                                    (failure_message
                                       (CreateDNSRecordCall (CfZoneId a) (create_params ip a)))
                                    [AttrError err]) u3)
                | (Inr r, u3) \<Rightarrow> update_records cf ip a records u3)
          else update_records cf ip a records u1)"
  by (simp add: reconcile_def Let_def record_type_def list_params_def create_params_def
        split: prod.splits sum.splits)

lemma reconcile_good: "good_run {a} u (reconcile cf ip a u)"
proof -
  let ?lc = "ListDNSRecordsCall (CfZoneId a) (list_params ip a)"
  let ?cc = "CreateDNSRecordCall (CfZoneId a) (create_params ip a)"
  let ?cl = "Log LevelInfo (Some (domain a)) ''Creating DNS record'' []"
  obtain res u1 where l: "called ?lc (ListDNSRecords cf (api u) (CfZoneId a) (list_params ip a)) u = (res, u1)"
    by (cases "called ?lc (ListDNSRecords cf (api u) (CfZoneId a) (list_params ip a)) u")
  show ?thesis
  proof (cases res)
    case (Inl err)
    with l have "reconcile cf ip a u =
        Exited (emit (Log LevelError (Some (domain a)) (failure_message ?lc) [AttrError err]) u1)"
      by (simp add: reconcile_unfold)
    moreover from l Inl have "good_run {a} u
        (Exited (emit (Log LevelError (Some (domain a)) (failure_message ?lc) [AttrError err]) u1))"
      by (intro good_run_fail) simp
    ultimately show ?thesis by simp
  next
    case (Inr records)
    from extends_called [OF l] Inr have e1: "extends u u1 [Call ?lc None]"
      by (simp add: err_of_def)
    have c1: "\<not> list_ex is_failed_call [Call ?lc None]" by simp
    show ?thesis
    proof (cases "records = []")
      case False
      with l Inr have "reconcile cf ip a u = update_records cf ip a records u1"
        by (simp add: reconcile_unfold)
      with good_run_prepend [OF e1 c1 update_records_good] show ?thesis by simp
    next
      case True
      let ?u2 = "emit ?cl u1"
      have e2: "extends u1 ?u2 [?cl]" by (rule extends_emit)
      have c2: "\<not> list_ex is_failed_call [?cl]" by simp
      obtain cres u3 where c: "called ?cc (CreateDNSRecord cf (api ?u2) (CfZoneId a) (create_params ip a)) ?u2 = (cres, u3)"
        by (cases "called ?cc (CreateDNSRecord cf (api ?u2) (CfZoneId a) (create_params ip a)) ?u2")
      have "good_run {a} ?u2 (reconcile cf ip a u)"
      proof (cases cres)
        case (Inl err)
        with l c \<open>res = Inr records\<close> True have "reconcile cf ip a u =
            Exited (emit (Log LevelError (Some (domain a)) (failure_message ?cc) [AttrError err]) u3)"
          by (simp add: reconcile_unfold)
        moreover from c Inl have "good_run {a} ?u2
            (Exited (emit (Log LevelError (Some (domain a)) (failure_message ?cc) [AttrError err]) u3))"
          by (intro good_run_fail) simp
        ultimately show ?thesis by simp
      next
        case (Inr r)
        with l c \<open>res = Inr records\<close> True have "reconcile cf ip a u = Running u3"
          by (simp add: reconcile_unfold)
        moreover from extends_called [OF c] Inr have "extends ?u2 u3 [Call ?cc None]"
          by (simp add: err_of_def)
        then have "good_run {a} ?u2 (Running u3)"
          by (rule good_run_RunningI) simp
        ultimately show ?thesis by simp
      qed
      from good_run_prepend [OF e1 c1 good_run_prepend [OF e2 c2 this]] show ?thesis .
    qed
  qed
qed

lemma reconcile_calls:
  assumes list: "ListDNSRecords cf (api u) (CfZoneId a) (list_params ip a) = (p, Inr records)"
  shows "\<exists>new n. extends u (state_of (reconcile cf ip a u)) new
     \<and> create_calls new = (if records = [] then [(CfZoneId a, create_params ip a)] else [])
     \<and> update_calls new = take n (expected_updates a ip records)
     \<and> (\<forall>u'. reconcile cf ip a u = Running u' \<longrightarrow>
            update_calls new = expected_updates a ip records)"
proof -
  let ?lc = "ListDNSRecordsCall (CfZoneId a) (list_params ip a)"
  let ?cc = "CreateDNSRecordCall (CfZoneId a) (create_params ip a)"
  let ?cl = "Log LevelInfo (Some (domain a)) ''Creating DNS record'' []"
  obtain u1 where l: "called ?lc (ListDNSRecords cf (api u) (CfZoneId a) (list_params ip a)) u
      = (Inr records, u1)"
    using list by (simp add: called_def)
  from extends_called [OF l] have e1: "extends u u1 [Call ?lc None]"
    by (simp add: err_of_def)
  show ?thesis
  proof (cases "records = []")
    case False
    with l have eq: "reconcile cf ip a u = update_records cf ip a records u1"
      by (simp add: reconcile_unfold)
    from update_records_calls [of u1 cf ip a records] obtain new n where
      n: "extends u1 (state_of (update_records cf ip a records u1)) new"
         "create_calls new = []" "update_calls new = take n (expected_updates a ip records)"
         "\<forall>u'. update_records cf ip a records u1 = Running u' \<longrightarrow>
            update_calls new = expected_updates a ip records"
      by blast
    from extends_trans [OF e1 n(1)] n(2,3,4) False show ?thesis
      unfolding eq by (intro exI [of _ "[Call ?lc None] @ new"] exI [of _ n]) simp
  next
    case True
    let ?u2 = "emit ?cl u1"
    have e2: "extends u1 ?u2 [?cl]" by (rule extends_emit)
    obtain cres u3 where c: "called ?cc (CreateDNSRecord cf (api ?u2) (CfZoneId a) (create_params ip a)) ?u2 = (cres, u3)"
      by (cases "called ?cc (CreateDNSRecord cf (api ?u2) (CfZoneId a) (create_params ip a)) ?u2")
    have e3: "extends ?u2 u3 [Call ?cc (err_of cres)]" by (rule extends_called [OF c])
    have x: "expected_updates a ip records = []"
      using True by (simp add: expected_updates_def)
    show ?thesis
    proof (cases cres)
      case (Inl err)
      let ?u4 = "emit (Log LevelError (Some (domain a)) (failure_message ?cc) [AttrError err]) u3"
      from l c True Inl have eq: "reconcile cf ip a u = Exited ?u4"
        by (simp add: reconcile_unfold)
      from extends_trans [OF extends_trans [OF extends_trans [OF e1 e2] e3] extends_emit]
      have "extends u ?u4 ([Call ?lc None, ?cl, Call ?cc (err_of cres),
               Log LevelError (Some (domain a)) (failure_message ?cc) [AttrError err]])"
        by simp
      then show ?thesis unfolding eq x using True
        by (intro exI [of _ "[Call ?lc None, ?cl, Call ?cc (err_of cres),
               Log LevelError (Some (domain a)) (failure_message ?cc) [AttrError err]]"]
              exI [of _ 0]) simp
    next
      case (Inr r)
      with l c True have eq: "reconcile cf ip a u = Running u3"
        by (simp add: reconcile_unfold)
      from extends_trans [OF extends_trans [OF e1 e2] e3]
      have "extends u u3 [Call ?lc None, ?cl, Call ?cc (err_of cres)]" by simp
      then show ?thesis unfolding eq x using True
        by (intro exI [of _ "[Call ?lc None, ?cl, Call ?cc (err_of cres)]"] exI [of _ 0]) simp
    qed
  qed
qed

subsection \<open>The action loop\<close>

text \<open>An action is skipped when its family does not match the address.\<close>

definition skipped :: "IP \<Rightarrow> Action \<Rightarrow> bool" where
  "skipped ip action \<longleftrightarrow>
     (To4 ip = None \<and> IpVersion action \<noteq> 6) \<or> (To4 ip \<noteq> None \<and> IpVersion action = 6)"

lemma action_loop_skip:
  "skipped ip a \<Longrightarrow> action_loop cf ip (a # as) u = action_loop cf ip as u"
  unfolding skipped_def by (cases "To4 ip") auto

lemma action_loop_run:
  "\<not> skipped ip a \<Longrightarrow>
   action_loop cf ip (a # as) u =
     (case reconcile cf ip a u of Exited u' \<Rightarrow> Exited u' | Running u' \<Rightarrow> action_loop cf ip as u')"
  unfolding skipped_def by (cases "To4 ip") auto

lemma action_loop_good:
  "good_run {a \<in> set as. \<not> skipped ip a} u (action_loop cf ip as u)"
proof (induction as arbitrary: u)
  case Nil
  show ?case by (simp add: good_run_Running)
next
  case (Cons a as)
  let ?A = "{b \<in> set (a # as). \<not> skipped ip b}"
  have sub: "{b \<in> set as. \<not> skipped ip b} \<subseteq> ?A" by auto
  show ?case
  proof (cases "skipped ip a")
    case True
    then have "action_loop cf ip (a # as) u = action_loop cf ip as u"
      by (rule action_loop_skip)
    with good_run_mono [OF sub Cons.IH] show ?thesis by simp
  next
    case False
    then have sub1: "{a} \<subseteq> ?A" by simp
    have r: "good_run {a} u (reconcile cf ip a u)" by (rule reconcile_good)
    show ?thesis
    proof (cases "reconcile cf ip a u")
      case (Exited u')
      with False have "action_loop cf ip (a # as) u = Exited u'"
        by (simp add: action_loop_run del: action_loop.simps)
      moreover from r Exited have "good_run {a} u (Exited u')" by simp
      then have "good_run ?A u (Exited u')"
        by (rule good_run_mono [OF sub1])
      ultimately show ?thesis by simp
    next
      case (Running u')
      with False have eq: "action_loop cf ip (a # as) u = action_loop cf ip as u'"
        by (simp add: action_loop_run del: action_loop.simps)
      from r Running have "\<exists>new. extends u u' new \<and> \<not> list_ex is_failed_call new"
        by (simp add: good_run_def)
      then obtain new where n: "extends u u' new" "\<not> list_ex is_failed_call new"
        by blast
      have "good_run ?A u' (action_loop cf ip as u')"
        by (rule good_run_mono [OF sub Cons.IH])
      from good_run_prepend [OF n this] eq show ?thesis by simp
    qed
  qed
qed

subsection \<open>One notification\<close>

text \<open>The LastAddress slot of the family of \<open>ip\<close>.\<close>

definition last_address :: "IP \<Rightarrow> 'p CloudflareUpdater \<Rightarrow> IP option" where
  "last_address ip u = (if To4 ip = None then lastIpv6 (options u) else lastIpv4 (options u))"

lemma is_duplicate_iff:
  "is_duplicate ip u \<longleftrightarrow> (\<exists>l. last_address ip u = Some l \<and> Equal l ip)"
  by (auto simp add: is_duplicate_def last_address_def split: option.splits)

lemma handle_duplicate: "is_duplicate ip u \<Longrightarrow> handle cf ip u = Running u"
  by (simp add: handle_def)

lemma handle_cases:
  assumes "\<not> is_duplicate ip u"
  obtains
    (Exited) u' where "handle cf ip u = Exited u'"
      "good_run {a \<in> set (actions u). \<not> skipped ip a}
         (emit (Log LevelInfo None ''Received update request'' [AttrIp ip]) u) (Exited u')"
  | (Running) u' new where
      "handle cf ip u =
         Running (if To4 ip = None
                  then u'\<lparr>options := (options u')\<lparr>lastIpv6 := Some ip\<rparr>\<rparr>
                  else u'\<lparr>options := (options u')\<lparr>lastIpv4 := Some ip\<rparr>\<rparr>)"
      "extends u u' (Log LevelInfo None ''Received update request'' [AttrIp ip] # new)"
      "\<not> list_ex is_failed_call new"
proof -
  let ?ev = "Log LevelInfo None ''Received update request'' [AttrIp ip]"
  let ?u1 = "emit ?ev u"
  have e1: "extends u ?u1 [?ev]" by (rule extends_emit)
  then have acts: "actions ?u1 = actions u" by (simp add: extends_def)
  have g: "good_run {a \<in> set (actions u). \<not> skipped ip a} ?u1 (action_loop cf ip (actions u) ?u1)"
    by (rule action_loop_good)
  show ?thesis
  proof (cases "action_loop cf ip (actions u) ?u1")
    case (Exited u')
    with assms acts have "handle cf ip u = Exited u'" by (simp add: handle_def Let_def)
    with g Exited show ?thesis by (intro that(1) [of u']) simp_all
  next
    case (Running u')
    with assms acts have h: "handle cf ip u =
         Running (if To4 ip = None
                  then u'\<lparr>options := (options u')\<lparr>lastIpv6 := Some ip\<rparr>\<rparr>
                  else u'\<lparr>options := (options u')\<lparr>lastIpv4 := Some ip\<rparr>\<rparr>)"
      by (simp add: handle_def Let_def)
    from g Running have "\<exists>new. extends ?u1 u' new \<and> \<not> list_ex is_failed_call new"
      by (simp add: good_run_def)
    then obtain new where n: "extends ?u1 u' new" "\<not> list_ex is_failed_call new" by blast
    from extends_trans [OF e1 n(1)] have "extends u u' (?ev # new)" by simp
    with h n(2) show ?thesis by (intro that(2) [of u' new]) simp_all
  qed
qed

subsection \<open>Facts about \<open>To4\<close> and \<open>Equal\<close>\<close>

lemma take_12_split:
  assumes "length x = 16"
  shows "take 12 x = take 10 x @ [x ! 10, x ! 11]"
proof -
  have a: "take (Suc 10) x = take 10 x @ [x ! 10]"
    using assms by (intro take_Suc_conv_app_nth) simp
  have b: "take (Suc 11) x = take 11 x @ [x ! 11]"
    using assms by (intro take_Suc_conv_app_nth) simp
  have "Suc 10 = 11" "Suc 11 = 12" by simp_all
  with a b have "take 11 x = take 10 x @ [x ! 10]" "take 12 x = take 11 x @ [x ! 11]"
    by simp_all
  then show ?thesis by simp
qed

lemma v4InV6Prefix_split: "v4InV6Prefix = replicate 10 0 @ [0xff, 0xff]"
  by (simp add: v4InV6Prefix_def numeral_eq_Suc)

lemma v4InV6Prefix_iff:
  assumes "length x = 16"
  shows "take 12 x = v4InV6Prefix \<longleftrightarrow>
         take 10 x = replicate 10 0 \<and> x ! 10 = 0xff \<and> x ! 11 = 0xff"
  unfolding take_12_split [OF assms] v4InV6Prefix_split using assms by simp

lemma To4_None_iff:
  "To4 ip = None \<longleftrightarrow> length ip \<noteq> 4 \<and> \<not> (length ip = 16 \<and> take 12 ip = v4InV6Prefix)"
proof (cases "length ip = 16")
  case True
  then show ?thesis using v4InV6Prefix_iff [OF True] by (simp add: To4_def)
next
  case False
  then show ?thesis by (simp add: To4_def)
qed

lemma Equal_refl: "Equal ip ip"
  by (simp add: Equal_def)

lemma Equal_cases:
  assumes "Equal a b"
  obtains (same) "a = b"
  | (v4v6) "length a = 4" "length b = 16" "take 12 b = v4InV6Prefix" "a = drop 12 b"
  | (v6v4) "length a = 16" "length b = 4" "take 12 a = v4InV6Prefix" "drop 12 a = b"
proof (cases "length a = length b")
  case True
  with assms have "a = b" by (simp add: Equal_def)
  then show ?thesis by (rule same)
next
  case ne: False
  show ?thesis
  proof (cases "length a = 4 \<and> length b = 16")
    case True
    with assms ne show ?thesis by (intro v4v6) (simp_all add: Equal_def)
  next
    case False
    with assms ne have "length a = 16 \<and> length b = 4 \<and> take 12 a = v4InV6Prefix \<and> drop 12 a = b"
      by (simp add: Equal_def split: if_splits)
    then show ?thesis by (intro v6v4) simp_all
  qed
qed

lemma Equal_v4v6:
  "length a = 4 \<Longrightarrow> length b = 16 \<Longrightarrow> take 12 b = v4InV6Prefix \<Longrightarrow> a = drop 12 b \<Longrightarrow> Equal a b"
  by (simp add: Equal_def)

lemma Equal_v6v4:
  "length a = 16 \<Longrightarrow> length b = 4 \<Longrightarrow> take 12 a = v4InV6Prefix \<Longrightarrow> drop 12 a = b \<Longrightarrow> Equal a b"
  by (simp add: Equal_def)

lemma Equal_sym:
  assumes "Equal a b"
  shows "Equal b a"
  using assms
proof (cases rule: Equal_cases)
  case same
  then show ?thesis by (simp add: Equal_refl)
next
  case v4v6
  then show ?thesis by (intro Equal_v6v4) simp_all
next
  case v6v4
  then show ?thesis by (intro Equal_v4v6) simp_all
qed

lemma Equal_To4:
  assumes "Equal a b"
  shows "To4 a = None \<longleftrightarrow> To4 b = None"
  using assms
proof (cases rule: Equal_cases)
  case same
  then show ?thesis by simp
next
  case v4v6
  then show ?thesis by (simp add: To4_None_iff)
next
  case v6v4
  then show ?thesis by (simp add: To4_None_iff)
qed

lemma take_drop_12_eq:
  fixes x y :: IP
  assumes "take 12 x = take 12 y" "drop 12 x = drop 12 y"
  shows "x = y"
proof -
  have "x = take 12 x @ drop 12 x" by simp
  also have "\<dots> = take 12 y @ drop 12 y" by (simp only: assms)
  also have "\<dots> = y" by simp
  finally show ?thesis .
qed

lemma Equal_trans:
  assumes ab: "Equal a b" and bc: "Equal b c"
  shows "Equal a c"
  using ab
proof (cases rule: Equal_cases)
  case same
  with bc show ?thesis by simp
next
  case ab: v4v6
  from bc show ?thesis
  proof (cases rule: Equal_cases)
    case same
    with assms show ?thesis by simp
  next
    case v4v6
    with ab show ?thesis by simp
  next
    case v6v4
    with ab have "a = c" by simp
    then show ?thesis by (simp add: Equal_refl)
  qed
next
  case ab: v6v4
  from bc show ?thesis
  proof (cases rule: Equal_cases)
    case same
    with assms show ?thesis by simp
  next
    case v4v6
    with ab have "take 12 a = take 12 c" "drop 12 a = drop 12 c" by simp_all
    then have "a = c" by (rule take_drop_12_eq)
    then show ?thesis by (simp add: Equal_refl)
  next
    case v6v4
    with ab show ?thesis by simp
  qed
qed

subsection \<open>Addresses for the examples\<close>

text \<open>\<open>203.0.113.5\<close> in its 4-byte and its 16-byte form, and \<open>203.0.113.9\<close>.\<close>

definition example_ipv4 :: IP where
  "example_ipv4 = [203, 0, 113, 5]"

definition example_ipv4_mapped :: IP where
  "example_ipv4_mapped = [0, 0, 0, 0, 0, 0, 0, 0, 0, 0, 0xff, 0xff, 203, 0, 113, 5]"

definition example_ipv4_new :: IP where
  "example_ipv4_new = [203, 0, 113, 9]"

section \<open>Claims about the worker\<close>

lemma last_address_Equal:
  "Equal ip x \<Longrightarrow> last_address x u = last_address ip u"
  using Equal_To4 [of ip x] by (simp add: last_address_def)

lemma spawnWorker_duplicates:
  assumes "last_address ip u = Some l" "Equal l ip" "\<forall>x\<in>set xs. Equal ip x"
  shows "spawnWorker cf (xs @ rest) u = spawnWorker cf rest u"
  using assms(3)
proof (induction xs)
  case Nil
  show ?case by simp
next
  case (Cons x xs)
  then have x: "Equal ip x" by simp
  then have "last_address x u = Some l" using assms(1) by (simp add: last_address_Equal)
  moreover have "Equal l x" using assms(2) x by (rule Equal_trans)
  ultimately have "is_duplicate x u" unfolding is_duplicate_iff by blast
  then have "handle cf x u = Running u" by (rule handle_duplicate)
  with Cons show ?case by simp
qed

lemma handle_Running_slots:
  assumes "\<not> is_duplicate ip u" "handle cf ip u = Running u'"
  shows "last_address ip u' = Some ip
      \<and> (To4 ip = None \<longrightarrow> lastIpv4 (options u') = lastIpv4 (options u))
      \<and> (To4 ip \<noteq> None \<longrightarrow> lastIpv6 (options u') = lastIpv6 (options u))
      \<and> actions u' = actions u"
  using assms(1)
proof (cases rule: handle_cases [where cf = cf])
  case (Exited u'')
  with assms(2) show ?thesis by simp
next
  case (Running u'' new)
  from Running(2) have o: "options u'' = options u" "actions u'' = actions u"
    by (simp_all add: extends_def)
  from Running(1) assms(2) have "u' = (if To4 ip = None
                  then u''\<lparr>options := (options u'')\<lparr>lastIpv6 := Some ip\<rparr>\<rparr>
                  else u''\<lparr>options := (options u'')\<lparr>lastIpv4 := Some ip\<rparr>\<rparr>)"
    by simp
  with o show ?thesis
    by (simp add: last_address_def)
qed

lemma handle_Running_last:
  assumes "handle cf ip u = Running u'"
  shows "\<exists>l. last_address ip u' = Some l \<and> Equal l ip"
proof (cases "is_duplicate ip u")
  case True
  with assms have "u' = u" by (simp add: handle_duplicate)
  with True show ?thesis by (simp add: is_duplicate_iff)
next
  case False
  from handle_Running_slots [OF False assms] show ?thesis
    by (simp add: Equal_refl)
qed

text \<open>
  C1.  An address counts as a duplicate exactly when the LastAddress slot of its family is
  set and \<open>Equal\<close> (value equality) to it.  A duplicate is discarded: the worker's state
  after it is the state before it, so there is no provider call, no log line and no change
  of either slot.  When a notification that is not a duplicate has its action loop complete,
  the slot of its family holds the new address and the other slot is unchanged.  Hence in
  any sequence of deliveries the addresses that follow an address \<open>ip\<close> and are equal to it
  can be removed without changing anything the worker does: only the first of a run acts.
\<close>

theorem dedup:
  "(is_duplicate ip u \<longleftrightarrow> (\<exists>l. last_address ip u = Some l \<and> Equal l ip))
   \<and> (is_duplicate ip u \<longrightarrow> handle cf ip u = Running u)
   \<and> (\<not> is_duplicate ip u \<and> handle cf ip u = Running u' \<longrightarrow>
        last_address ip u' = Some ip
        \<and> (if To4 ip = None then lastIpv4 (options u') = lastIpv4 (options u)
           else lastIpv6 (options u') = lastIpv6 (options u)))
   \<and> ((\<forall>x\<in>set xs. Equal ip x) \<longrightarrow>
        spawnWorker cf (ip # xs @ rest) u = spawnWorker cf (ip # rest) u)"
proof -
  have run: "spawnWorker cf (ip # xs @ rest) u = spawnWorker cf (ip # rest) u"
    if eq: "\<forall>x\<in>set xs. Equal ip x"
  proof (cases "handle cf ip u")
    case (Exited u'')
    then show ?thesis by simp
  next
    case (Running u'')
    from handle_Running_last [OF Running] obtain l where
      "last_address ip u'' = Some l" "Equal l ip" by blast
    then have "spawnWorker cf (xs @ rest) u'' = spawnWorker cf rest u''"
      using eq by (rule spawnWorker_duplicates)
    with Running show ?thesis by simp
  qed
  have slots: "last_address ip u' = Some ip
        \<and> (if To4 ip = None then lastIpv4 (options u') = lastIpv4 (options u)
           else lastIpv6 (options u') = lastIpv6 (options u))"
    if "\<not> is_duplicate ip u" "handle cf ip u = Running u'"
    using handle_Running_slots [OF that] by simp
  show ?thesis
    using is_duplicate_iff [of ip u] handle_duplicate [of ip u cf] run slots by blast
qed

theorem dedup_witness:
  "Equal example_ipv4 example_ipv4 \<and> Equal example_ipv4 example_ipv4_mapped
   \<and> spawnWorker memory_provider
        [example_ipv4, example_ipv4, example_ipv4_mapped, example_ipv4_new] (example_updater [])
     = spawnWorker memory_provider [example_ipv4, example_ipv4_new] (example_updater [])
   \<and> \<not> is_duplicate example_ipv4 (example_updater [])
   \<and> last_address example_ipv4
        (state_of (handle memory_provider example_ipv4 (example_updater []))) = Some example_ipv4
   \<and> is_duplicate example_ipv4_mapped
        (state_of (handle memory_provider example_ipv4 (example_updater [])))
   \<and> handle memory_provider example_ipv4_mapped
        (state_of (handle memory_provider example_ipv4 (example_updater [])))
     = Running (state_of (handle memory_provider example_ipv4 (example_updater [])))"
proof -
  let ?u0 = "example_updater []"
  let ?u1 = "state_of (handle memory_provider example_ipv4 ?u0)"
  have e1: "Equal example_ipv4 example_ipv4" by code_simp
  have e2: "Equal example_ipv4 example_ipv4_mapped" by code_simp
  have nd: "\<not> is_duplicate example_ipv4 ?u0" by code_simp
  have r: "handle memory_provider example_ipv4 ?u0 = Running ?u1" by code_simp
  have d: "is_duplicate example_ipv4_mapped ?u1" by code_simp
  from e1 e2 have "\<forall>x\<in>set [example_ipv4, example_ipv4_mapped]. Equal example_ipv4 x" by simp
  with dedup [of example_ipv4 ?u0 memory_provider ?u1 "[example_ipv4, example_ipv4_mapped]"
                 "[example_ipv4_new]"]
  have run: "spawnWorker memory_provider
        [example_ipv4, example_ipv4, example_ipv4_mapped, example_ipv4_new] ?u0
     = spawnWorker memory_provider [example_ipv4, example_ipv4_new] ?u0"
    by simp
  from dedup [of example_ipv4 ?u0 memory_provider ?u1 "[]" "[]"] nd r
  have slot: "last_address example_ipv4 ?u1 = Some example_ipv4" by blast
  from dedup [of example_ipv4_mapped ?u1 memory_provider ?u1 "[]" "[]"] d
  have dis: "handle memory_provider example_ipv4_mapped ?u1 = Running ?u1" by blast
  from e1 e2 run nd slot d dis show ?thesis by blast
qed

text \<open>
  C9.  If a provider call (list, create or update) issued while an address is handled
  returns an error, then the process exits: the failed call is followed by exactly one
  more event, the error log line carrying the \<open>domain\<close> (record name and family) of the
  action being reconciled and the message for that kind of call; no record or action after
  it is touched, both LastAddress slots are as before, and the worker handles no further
  address.
\<close>

theorem provider_error_fatal:
  assumes "Call c (Some err) \<in> set (new_events u (state_of (handle cf ip u)))"
  shows "\<exists>u' pre a. handle cf ip u = Exited u'
     \<and> a \<in> set (actions u) \<and> \<not> skipped ip a
     \<and> events u' = events u @ pre @
          [Call c (Some err),
           Log LevelError (Some (domain a)) (failure_message c) [AttrError err]]
     \<and> \<not> list_ex is_failed_call pre
     \<and> options u' = options u
     \<and> (\<forall>ips. spawnWorker cf (ip # ips) u = Exited u')"
proof -
  have clean: "Call c (Some err) \<notin> set xs" if "\<not> list_ex is_failed_call xs" for xs
    using that by (auto simp add: list_ex_iff)
  have nd: "\<not> is_duplicate ip u"
  proof
    assume "is_duplicate ip u"
    then have "handle cf ip u = Running u" by (rule handle_duplicate)
    with assms show False by (simp add: new_events_self)
  qed
  let ?ev = "Log LevelInfo None ''Received update request'' [AttrIp ip]"
  from nd show ?thesis
  proof (cases rule: handle_cases [where cf = cf])
    case (Running u'' new)
    let ?u' = "if To4 ip = None
                  then u''\<lparr>options := (options u'')\<lparr>lastIpv6 := Some ip\<rparr>\<rparr>
                  else u''\<lparr>options := (options u'')\<lparr>lastIpv4 := Some ip\<rparr>\<rparr>"
    from Running(2) have "events ?u' = events u @ (?ev # new)"
      by (simp add: extends_def)
    then have "new_events u ?u' = ?ev # new" by (rule new_events_append)
    with assms Running(1) have "Call c (Some err) \<in> set new" by simp
    with clean [OF Running(3)] show ?thesis by simp
  next
    case (Exited u')
    from Exited(2) have "\<exists>pre c' err' a. a \<in> {a \<in> set (actions u). \<not> skipped ip a}
        \<and> \<not> list_ex is_failed_call pre
        \<and> extends (emit ?ev u) u' (pre @ [Call c' (Some err'),
             Log LevelError (Some (domain a)) (failure_message c') [AttrError err']])"
      by (simp add: good_run_def)
    then obtain pre c' err' a where a: "a \<in> set (actions u)" "\<not> skipped ip a"
      and pre: "\<not> list_ex is_failed_call pre"
      and ext: "extends (emit ?ev u) u' (pre @ [Call c' (Some err'),
             Log LevelError (Some (domain a)) (failure_message c') [AttrError err']])"
      by blast
    from extends_trans [OF extends_emit ext]
    have ext': "extends u u' ((?ev # pre) @ [Call c' (Some err'),
             Log LevelError (Some (domain a)) (failure_message c') [AttrError err']])"
      by simp
    then have "new_events u u' = (?ev # pre) @ [Call c' (Some err'),
             Log LevelError (Some (domain a)) (failure_message c') [AttrError err']]"
      by (rule extends_new_events)
    with assms Exited(1) clean [OF pre] have same: "c' = c" "err' = err" by auto
    have pre': "\<not> list_ex is_failed_call (?ev # pre)" using pre by simp
    from ext' have "events u' = events u @ (?ev # pre) @
          [Call c (Some err),
           Log LevelError (Some (domain a)) (failure_message c) [AttrError err]]"
      "options u' = options u"
      unfolding same by (simp_all add: extends_def)
    moreover have "\<forall>ips. spawnWorker cf (ip # ips) u = Exited u'"
      using Exited(1) by simp
    ultimately show ?thesis using Exited(1) a pre' by blast
  qed
qed

text \<open>The record of the specification's update scenario.\<close>

definition example_record :: DNSRecord where
  "example_record = \<lparr>ID = ''r1'', Content = ''203.0.113.5'', TTL = 300, Proxied = Some True\<rparr>"

definition example_action :: Action where
  "example_action = \<lparr>DnsRecord = ''home.example.com'', CfZoneId = ''z1'', IpVersion = 4\<rparr>"

theorem provider_error_fatal_witness:
  "Call (UpdateDNSRecordCall ''z1''
           \<lparr>update_ID = ''r1'', update_Content = ''203.0.113.9'', update_TTL = 300,
            update_Proxied = Some True\<rparr>) (Some ''context deadline exceeded'')
     \<in> set (new_events (example_updater [example_record])
               (state_of (handle failing_update_provider example_ipv4_new
                            (example_updater [example_record]))))
   \<and> (\<exists>u'. handle failing_update_provider example_ipv4_new (example_updater [example_record])
              = Exited u'
          \<and> options u' = options (example_updater [example_record])
          \<and> spawnWorker failing_update_provider [example_ipv4_new, example_ipv4]
               (example_updater [example_record]) = Exited u')"
proof -
  let ?u = "example_updater [example_record]"
  let ?c = "UpdateDNSRecordCall ''z1''
           \<lparr>update_ID = ''r1'', update_Content = ''203.0.113.9'', update_TTL = 300,
            update_Proxied = Some True\<rparr>"
  have h: "Call ?c (Some ''context deadline exceeded'')
     \<in> set (new_events ?u (state_of (handle failing_update_provider example_ipv4_new ?u)))"
    by code_simp
  from provider_error_fatal [OF h] obtain u' where
    "handle failing_update_provider example_ipv4_new ?u = Exited u'"
    "options u' = options ?u"
    "\<forall>ips. spawnWorker failing_update_provider (example_ipv4_new # ips) ?u = Exited u'"
    by blast
  with h show ?thesis by blast
qed

text \<open>
  C2.  When the list phase of an action's reconciliation returns zero records, the worker
  issues exactly one create call, for the action's zone, with record type \<open>A\<close> for an IPv4
  address (\<open>AAAA\<close> for IPv6), the action's record name, content \<open>ip.String()\<close>, TTL 120 and
  proxied false; when the list phase returns one or more records, it issues no create call.
\<close>

theorem create_path:
  assumes "ListDNSRecords cf (api u) (CfZoneId a)
             \<lparr>list_Type = (if To4 ip = None then ''AAAA'' else ''A''), list_Name = DnsRecord a\<rparr>
           = (p, Inr records)"
  shows "create_calls (new_events u (state_of (reconcile cf ip a u))) =
           (if records = []
            then [(CfZoneId a,
                   \<lparr>create_Type = (if To4 ip = None then ''AAAA'' else ''A''),
                    create_Name = DnsRecord a, create_Content = String ip,
                    create_Proxied = Some False, create_TTL = 120,
                    create_ZoneID = CfZoneId a\<rparr>)]
            else [])"
proof -
  from assms have "ListDNSRecords cf (api u) (CfZoneId a) (list_params ip a) = (p, Inr records)"
    by (simp add: list_params_def record_type_def)
  from reconcile_calls [OF this] obtain new where
    "extends u (state_of (reconcile cf ip a u)) new"
    "create_calls new = (if records = [] then [(CfZoneId a, create_params ip a)] else [])"
    by blast
  then show ?thesis
    by (simp add: extends_new_events create_params_def record_type_def)
qed

theorem create_path_witness:
  "ListDNSRecords memory_provider (api (example_updater [])) (CfZoneId example_action)
     \<lparr>list_Type = (if To4 example_ipv4 = None then ''AAAA'' else ''A''),
      list_Name = DnsRecord example_action\<rparr> = ([], Inr [])
   \<and> create_calls (new_events (example_updater [])
        (state_of (reconcile memory_provider example_ipv4 example_action (example_updater []))))
     = [(''z1'', \<lparr>create_Type = ''A'', create_Name = ''home.example.com'',
                  create_Content = ''203.0.113.5'', create_Proxied = Some False,
                  create_TTL = 120, create_ZoneID = ''z1''\<rparr>)]"
proof -
  have l: "ListDNSRecords memory_provider (api (example_updater [])) (CfZoneId example_action)
     \<lparr>list_Type = (if To4 example_ipv4 = None then ''AAAA'' else ''A''),
      list_Name = DnsRecord example_action\<rparr> = ([], Inr [])"
    by code_simp
  have v: "(if To4 example_ipv4 = None then ''AAAA'' else ''A'') = ''A''" by code_simp
  have s: "String example_ipv4 = ''203.0.113.5''" by code_simp
  have z: "CfZoneId example_action = ''z1''" "DnsRecord example_action = ''home.example.com''"
    by (simp_all add: example_action_def)
  from create_path [OF l] l show ?thesis
    unfolding v s z by simp
qed

text \<open>A second stale record, for the example with two records.\<close>

definition example_record2 :: DNSRecord where
  "example_record2 = \<lparr>ID = ''r2'', Content = ''203.0.113.6'', TTL = 60, Proxied = None\<rparr>"

text \<open>
  C3 (amended).  The update calls of an action's reconciliation are, in the order of the
  list phase, one call per returned record whose content differs from \<open>ip.String()\<close>, each
  for that record's identifier, with content \<open>ip.String()\<close> and the TTL and proxied flag
  observed on that record: all of them when the reconciliation completes, an initial
  segment of them when a provider call fails and the process exits.  No update call is
  issued for a record whose content already equals \<open>ip.String()\<close>.
\<close>

theorem update_path:
  assumes "ListDNSRecords cf (api u) (CfZoneId a)
             \<lparr>list_Type = (if To4 ip = None then ''AAAA'' else ''A''), list_Name = DnsRecord a\<rparr>
           = (p, Inr records)"
  shows "(\<exists>n. update_calls (new_events u (state_of (reconcile cf ip a u))) =
            take n (map (\<lambda>r. (CfZoneId a,
                               \<lparr>update_ID = ID r, update_Content = String ip,
                                update_TTL = TTL r, update_Proxied = Proxied r\<rparr>))
                        (filter (\<lambda>r. Content r \<noteq> String ip) records)))
     \<and> (\<forall>u'. reconcile cf ip a u = Running u' \<longrightarrow>
           update_calls (new_events u u') =
             map (\<lambda>r. (CfZoneId a,
                        \<lparr>update_ID = ID r, update_Content = String ip,
                         update_TTL = TTL r, update_Proxied = Proxied r\<rparr>))
                 (filter (\<lambda>r. Content r \<noteq> String ip) records))"
proof -
  from assms have "ListDNSRecords cf (api u) (CfZoneId a) (list_params ip a) = (p, Inr records)"
    by (simp add: list_params_def record_type_def)
  from reconcile_calls [OF this] obtain new n where
    n: "extends u (state_of (reconcile cf ip a u)) new"
       "update_calls new = take n (expected_updates a ip records)"
       "\<forall>u'. reconcile cf ip a u = Running u' \<longrightarrow>
            update_calls new = expected_updates a ip records"
    by blast
  from n(1) have ne: "new_events u (state_of (reconcile cf ip a u)) = new"
    by (rule extends_new_events)
  have "\<exists>n. update_calls (new_events u (state_of (reconcile cf ip a u))) =
            take n (expected_updates a ip records)"
    using n(2) ne by blast
  moreover have "update_calls (new_events u u') = expected_updates a ip records"
    if "reconcile cf ip a u = Running u'" for u'
    using n(3) ne that by simp
  ultimately show ?thesis unfolding expected_updates_def by blast
qed

theorem update_path_witness:
  "ListDNSRecords memory_provider (api (example_updater [example_record]))
     (CfZoneId example_action)
     \<lparr>list_Type = (if To4 example_ipv4_new = None then ''AAAA'' else ''A''),
      list_Name = DnsRecord example_action\<rparr> = ([example_record], Inr [example_record])
   \<and> (\<exists>u'. reconcile memory_provider example_ipv4_new example_action
               (example_updater [example_record]) = Running u'
        \<and> update_calls (new_events (example_updater [example_record]) u')
          = [(''z1'', \<lparr>update_ID = ''r1'', update_Content = ''203.0.113.9'',
                       update_TTL = 300, update_Proxied = Some True\<rparr>)])"
proof -
  let ?u = "example_updater [example_record]"
  let ?u' = "state_of (reconcile memory_provider example_ipv4_new example_action ?u)"
  have l: "ListDNSRecords memory_provider (api ?u) (CfZoneId example_action)
     \<lparr>list_Type = (if To4 example_ipv4_new = None then ''AAAA'' else ''A''),
      list_Name = DnsRecord example_action\<rparr> = ([example_record], Inr [example_record])"
    by code_simp
  have r: "reconcile memory_provider example_ipv4_new example_action ?u = Running ?u'"
    by code_simp
  have e: "map (\<lambda>r. (CfZoneId example_action,
                        \<lparr>update_ID = ID r, update_Content = String example_ipv4_new,
                         update_TTL = TTL r, update_Proxied = Proxied r\<rparr>))
                 (filter (\<lambda>r. Content r \<noteq> String example_ipv4_new) [example_record])
      = [(''z1'', \<lparr>update_ID = ''r1'', update_Content = ''203.0.113.9'',
                       update_TTL = 300, update_Proxied = Some True\<rparr>)]"
    by code_simp
  from update_path [OF l] r have "update_calls (new_events ?u ?u') =
      map (\<lambda>r. (CfZoneId example_action,
                        \<lparr>update_ID = ID r, update_Content = String example_ipv4_new,
                         update_TTL = TTL r, update_Proxied = Proxied r\<rparr>))
                 (filter (\<lambda>r. Content r \<noteq> String example_ipv4_new) [example_record])"
    by blast
  then have c: "update_calls (new_events ?u ?u') =
      [(''z1'', \<lparr>update_ID = ''r1'', update_Content = ''203.0.113.9'',
                       update_TTL = 300, update_Proxied = Some True\<rparr>)]"
    by (simp only: e)
  from r c have "\<exists>u'. reconcile memory_provider example_ipv4_new example_action ?u = Running u'
        \<and> update_calls (new_events ?u u')
          = [(''z1'', \<lparr>update_ID = ''r1'', update_Content = ''203.0.113.9'',
                       update_TTL = 300, update_Proxied = Some True\<rparr>)]"
    by blast
  with l show ?thesis by blast
qed

theorem update_path_counterexample:
  "\<not> (\<forall>(cf :: DNSRecord list cloudflare) u a ip p records r.
        ListDNSRecords cf (api u) (CfZoneId a)
             \<lparr>list_Type = (if To4 ip = None then ''AAAA'' else ''A''), list_Name = DnsRecord a\<rparr>
           = (p, Inr records)
        \<and> r \<in> set records \<and> Content r \<noteq> String ip
        \<longrightarrow> filter (\<lambda>(rc, params). update_ID params = ID r)
              (update_calls (new_events u (state_of (reconcile cf ip a u))))
            = [(CfZoneId a, \<lparr>update_ID = ID r, update_Content = String ip,
                             update_TTL = TTL r, update_Proxied = Proxied r\<rparr>)])"
proof
  assume h: "\<forall>(cf :: DNSRecord list cloudflare) u a ip p records r.
        ListDNSRecords cf (api u) (CfZoneId a)
             \<lparr>list_Type = (if To4 ip = None then ''AAAA'' else ''A''), list_Name = DnsRecord a\<rparr>
           = (p, Inr records)
        \<and> r \<in> set records \<and> Content r \<noteq> String ip
        \<longrightarrow> filter (\<lambda>(rc, params). update_ID params = ID r)
              (update_calls (new_events u (state_of (reconcile cf ip a u))))
            = [(CfZoneId a, \<lparr>update_ID = ID r, update_Content = String ip,
                             update_TTL = TTL r, update_Proxied = Proxied r\<rparr>)]"
  let ?rs = "[example_record, example_record2]"
  let ?u = "example_updater ?rs"
  have "ListDNSRecords failing_update_provider (api ?u) (CfZoneId example_action)
     \<lparr>list_Type = (if To4 example_ipv4_new = None then ''AAAA'' else ''A''),
      list_Name = DnsRecord example_action\<rparr> = (?rs, Inr ?rs)"
    by code_simp
  moreover have "example_record2 \<in> set ?rs" by simp
  moreover have "Content example_record2 \<noteq> String example_ipv4_new" by code_simp
  ultimately have "filter (\<lambda>(rc, params). update_ID params = ID example_record2)
              (update_calls (new_events ?u
                 (state_of (reconcile failing_update_provider example_ipv4_new example_action ?u))))
            = [(CfZoneId example_action,
                \<lparr>update_ID = ID example_record2, update_Content = String example_ipv4_new,
                 update_TTL = TTL example_record2, update_Proxied = Proxied example_record2\<rparr>)]"
    using h by blast
  moreover have "filter (\<lambda>(rc, params). update_ID params = ID example_record2)
              (update_calls (new_events ?u
                 (state_of (reconcile failing_update_provider example_ipv4_new example_action ?u))))
            = []"
    by code_simp
  ultimately show False by simp
qed

section \<open>Start-up: \<open>init\<close>\<close>

text \<open>Reading a Go map: a missing key yields the zero value, the empty string.\<close>

definition map_index :: "(string \<rightharpoonup> string) \<Rightarrow> string \<Rightarrow> string" where
  "map_index m k = (case m k of None \<Rightarrow> [] | Some v \<Rightarrow> v)"

text \<open>
  The map after the first two loops of \<open>init\<close>: every configured record name is a key,
  with the empty string as its value.
\<close>

definition initial_zoneIdMap :: "UpdaterOptions \<Rightarrow> (string \<rightharpoonup> string)" where
  "initial_zoneIdMap opts =
     fold (\<lambda>val m. m(val \<mapsto> [])) (ipv6Zones opts)
       (fold (\<lambda>val m. m(val \<mapsto> [])) (ipv4Zones opts) Map.empty)"

text \<open>
  The loop \<open>for val := range zoneIdMap\<close>, over the keys in the order \<open>range\<close> visits them.
  \<open>EffectiveTLDPlusOne\<close> is the function of package \<open>publicsuffix\<close>.  The first error ends
  \<open>init\<close>.
\<close>

fun resolve_zones ::
  "(string \<Rightarrow> error + string) \<Rightarrow> 'p cloudflare \<Rightarrow> string list \<Rightarrow> (string \<rightharpoonup> string)
     \<Rightarrow> 'p CloudflareUpdater \<Rightarrow> error + (string \<rightharpoonup> string) \<times> 'p CloudflareUpdater" where
  "resolve_zones EffectiveTLDPlusOne cf [] zoneIdMap u = Inr (zoneIdMap, u)"
| "resolve_zones EffectiveTLDPlusOne cf (val # vals) zoneIdMap u =
     (case EffectiveTLDPlusOne val of
        Inl err \<Rightarrow> Inl err
      | Inr zone \<Rightarrow>
          (case called (ZoneIDByNameCall zone) (ZoneIDByName cf (api u) zone) u of
             (Inl err, u1) \<Rightarrow> Inl err
           | (Inr zid, u1) \<Rightarrow>
               resolve_zones EffectiveTLDPlusOne cf vals (zoneIdMap(val \<mapsto> zid)) u1))"

text \<open>The loops that append one action per entry of a family's list.\<close>

fun append_actions ::
  "int \<Rightarrow> (string \<rightharpoonup> string) \<Rightarrow> string list \<Rightarrow> 'p CloudflareUpdater \<Rightarrow> 'p CloudflareUpdater" where
  "append_actions version zoneIdMap [] u = u"
| "append_actions version zoneIdMap (val # vals) u =
     append_actions version zoneIdMap vals
       (u\<lparr>actions := actions u @
            [\<lparr>DnsRecord = val, CfZoneId = map_index zoneIdMap val, IpVersion = version\<rparr>]\<rparr>)"

text \<open>
  \<open>init\<close>.  Go leaves the order in which \<open>range\<close> visits the keys of a map unspecified;
  \<open>keys\<close> is that order, and \<open>iteration_order\<close> says what Go guarantees of it: every key
  of the map once.
\<close>

definition iteration_order :: "string list \<Rightarrow> (string \<rightharpoonup> string) \<Rightarrow> bool" where
  "iteration_order keys m \<longleftrightarrow> distinct keys \<and> set keys = dom m"

definition init ::
  "(string \<Rightarrow> error + string) \<Rightarrow> 'p cloudflare \<Rightarrow> string list \<Rightarrow> 'p CloudflareUpdater
     \<Rightarrow> error + 'p CloudflareUpdater" where
  "init EffectiveTLDPlusOne cf keys u =
     (case resolve_zones EffectiveTLDPlusOne cf keys (initial_zoneIdMap (options u)) u of
        Inl err \<Rightarrow> Inl err
      | Inr (zoneIdMap, u1) \<Rightarrow>
          (let u2 = append_actions 4 zoneIdMap (ipv4Zones (options u1)) u1;
               u3 = append_actions 6 zoneIdMap (ipv6Zones (options u2)) u2
           in Inr (u3\<lparr>isInit := True\<rparr>)))"

text \<open>The updater as \<open>NewCloudflareUpdater\<close> builds it, before \<open>init\<close>.\<close>

definition new_updater :: "UpdaterOptions \<Rightarrow> CloudFlareConfigs \<Rightarrow> 'p \<Rightarrow> 'p CloudflareUpdater" where
  "new_updater opts cfgs a =
     \<lparr>options = opts, configs = cfgs, actions = [], isInit = False, api = a, events = []\<rparr>"

subsection \<open>Vocabulary of the specification\<close>

text \<open>The family of an address, as the number an action carries.\<close>

definition family :: "IP \<Rightarrow> int" where
  "family ip = (if To4 ip = None then 6 else 4)"

text \<open>Reconciling every action of a list, one after the other, with no family check.\<close>

fun reconcile_all ::
  "'p cloudflare \<Rightarrow> IP \<Rightarrow> Action list \<Rightarrow> 'p CloudflareUpdater \<Rightarrow> 'p CloudflareUpdater outcome" where
  "reconcile_all cf ip [] u = Running u"
| "reconcile_all cf ip (action # rest) u =
     (case reconcile cf ip action u of
        Exited u' \<Rightarrow> Exited u'
      | Running u' \<Rightarrow> reconcile_all cf ip rest u')"

subsection \<open>Facts about \<open>init\<close>\<close>

lemma dom_initial_zoneIdMap:
  "dom (initial_zoneIdMap opts) = set (ipv4Zones opts) \<union> set (ipv6Zones opts)"
proof -
  have "dom (fold (\<lambda>val m. m(val \<mapsto> [])) vals m) = dom m \<union> set vals"
    for vals :: "string list" and m :: "string \<rightharpoonup> string"
    by (induction vals arbitrary: m) auto
  then show ?thesis by (simp add: initial_zoneIdMap_def)
qed

lemma append_actions_actions:
  "actions (append_actions v zm vals u) =
     actions u @ map (\<lambda>val. \<lparr>DnsRecord = val, CfZoneId = map_index zm val, IpVersion = v\<rparr>) vals"
  by (induction vals arbitrary: u) simp_all

lemma append_actions_options: "options (append_actions v zm vals u) = options u"
  by (induction vals arbitrary: u) simp_all

lemma append_actions_events: "events (append_actions v zm vals u) = events u"
  by (induction vals arbitrary: u) simp_all

lemma append_actions_configs: "configs (append_actions v zm vals u) = configs u"
  by (induction vals arbitrary: u) simp_all

lemma resolve_zones_calls:
  "resolve_zones etld cf keys m u = Inr (m', u1) \<Longrightarrow>
   \<exists>new. extends u u1 new \<and> map etld keys = map Inr (zone_calls new)
      \<and> provider_calls new = map ZoneIDByNameCall (zone_calls new)"
proof (induction keys arbitrary: m u)
  case Nil
  then show ?case using extends_refl [of u] by auto
next
  case (Cons val vals)
  from Cons.prems obtain zone where z: "etld val = Inr zone"
    by (cases "etld val") simp_all
  obtain res u2 where c: "called (ZoneIDByNameCall zone) (ZoneIDByName cf (api u) zone) u = (res, u2)"
    by (cases "called (ZoneIDByNameCall zone) (ZoneIDByName cf (api u) zone) u")
  from Cons.prems z c obtain zid where zid: "res = Inr zid"
    by (cases res) simp_all
  from Cons.prems z c zid have "resolve_zones etld cf vals (m(val \<mapsto> zid)) u2 = Inr (m', u1)"
    by simp
  from Cons.IH [OF this] obtain new where
    n: "extends u2 u1 new" "map etld vals = map Inr (zone_calls new)"
       "provider_calls new = map ZoneIDByNameCall (zone_calls new)"
    by blast
  from extends_called [OF c] have e: "extends u u2 [Call (ZoneIDByNameCall zone) (err_of res)]" .
  from extends_trans [OF e n(1)] n(2,3) z show ?case
    by (intro exI [of _ "[Call (ZoneIDByNameCall zone) (err_of res)] @ new"]) simp
qed

lemma init_result:
  assumes "init etld cf keys u = Inr u'"
  shows "\<exists>zm new. extends u (u'\<lparr>actions := actions u\<rparr>\<lparr>isInit := isInit u\<rparr>) new
     \<and> map etld keys = map Inr (zone_calls new)
     \<and> provider_calls new = map ZoneIDByNameCall (zone_calls new)
     \<and> isInit u'
     \<and> actions u' = actions u
          @ map (\<lambda>val. \<lparr>DnsRecord = val, CfZoneId = map_index zm val, IpVersion = 4\<rparr>)
              (ipv4Zones (options u))
          @ map (\<lambda>val. \<lparr>DnsRecord = val, CfZoneId = map_index zm val, IpVersion = 6\<rparr>)
              (ipv6Zones (options u))"
proof -
  from assms obtain zm u1 where
    r: "resolve_zones etld cf keys (initial_zoneIdMap (options u)) u = Inr (zm, u1)"
    by (cases "resolve_zones etld cf keys (initial_zoneIdMap (options u)) u")
       (auto simp add: init_def)
  let ?u2 = "append_actions 4 zm (ipv4Zones (options u1)) u1"
  let ?u3 = "append_actions 6 zm (ipv6Zones (options ?u2)) ?u2"
  from assms r have u': "u' = ?u3\<lparr>isInit := True\<rparr>"
    by (simp add: init_def Let_def)
  from resolve_zones_calls [OF r] obtain new where
    n: "extends u u1 new" "map etld keys = map Inr (zone_calls new)"
       "provider_calls new = map ZoneIDByNameCall (zone_calls new)"
    by blast
  from n(1) have o: "options u1 = options u" "actions u1 = actions u" "events u1 = events u @ new"
      "configs u1 = configs u"
    by (simp_all add: extends_def)
  have acts: "actions u' = actions u
          @ map (\<lambda>val. \<lparr>DnsRecord = val, CfZoneId = map_index zm val, IpVersion = 4\<rparr>)
              (ipv4Zones (options u))
          @ map (\<lambda>val. \<lparr>DnsRecord = val, CfZoneId = map_index zm val, IpVersion = 6\<rparr>)
              (ipv6Zones (options u))"
    unfolding u' by (simp add: append_actions_actions append_actions_options o)
  have "extends u (u'\<lparr>actions := actions u\<rparr>\<lparr>isInit := isInit u\<rparr>) new"
    unfolding u' extends_def
    by (simp add: append_actions_options append_actions_events append_actions_configs o)
  moreover have "isInit u'" unfolding u' by simp
  ultimately show ?thesis using n(2,3) acts by blast
qed

end
